theory Spec2Isabelle
  imports Complex_Main
begin

section \<open>The e-graph encoder (src/rejoice/lib.py)\<close>

text \<open>
  Tensors of floats are modelled over the reals: a feature row is a \<open>real list\<close>, a
  feature matrix a list of rows. Rounding of 32-bit floats is not modelled.

  An operator kind is a named-tuple class made by \<open>op_tuple\<close> from a name and its field
  names. A node handed to \<open>encode_node\<close> is either a Python int (a scalar leaf) or an
  instance of such a class, carrying one child eclass id per field.
\<close>

datatype optype = OpType (op_name: string) (op_fields: "string list")

datatype node = Scalar int | Tup optype "int list"

datatype error = EncodeFailed | IndexError | KeyError | StackEmpty | ArgmaxEmpty

text \<open>The language: only \<open>all_operators()\<close> matters to the encoder.\<close>

record language =
  all_operators :: "optype list"

definition num_node_features :: "language \<Rightarrow> nat" where
  "num_node_features L = 4 + length (all_operators L)"

definition zeros :: "nat \<Rightarrow> real list" where
  "zeros n = replicate n 0"

text \<open>
  The loop \<open>for ind, op in enumerate(self.all_operators())\<close> of \<open>encode_node\<close>: the first
  operator class the node is an instance of sets its slot and returns; falling off the
  end raises \<open>Exception("Failed to encode node")\<close>.
\<close>

fun encode_op_loop :: "real list \<Rightarrow> optype \<Rightarrow> (nat \<times> optype) list \<Rightarrow> error + real list" where
  "encode_op_loop onehot c [] = Inl EncodeFailed"
| "encode_op_loop onehot c ((ind, op) # rest) =
     (if c = op then Inr (onehot[4 + ind := 1]) else encode_op_loop onehot c rest)"

fun encode_node :: "language \<Rightarrow> node \<Rightarrow> error + real list" where
  "encode_node L (Scalar v) =
     Inr ((zeros (num_node_features L))[2 := 1, 3 := real_of_int v])"
| "encode_node L (Tup c args) =
     encode_op_loop ((zeros (num_node_features L))[1 := 1]) c (enumerate 0 (all_operators L))"

definition encode_eclass :: "language \<Rightarrow> real list" where
  "encode_eclass L = (zeros (num_node_features L))[0 := 1]"





subsection \<open>Encoding a whole e-graph\<close>

text \<open>
  \<open>egraph.classes()\<close> is a dictionary from eclass id to \<open>(data, nodes)\<close>; it is modelled as
  the list of its items in iteration order. The keys have type \<open>'k\<close>; a child id stored
  in an operator node is turned into a key by Python's \<open>str\<close>, here the parameter
  \<open>str_of\<close>. \<open>eclass_to_ind\<close> is a map from keys to row indices; a missing key raises
  \<open>KeyError\<close>.

  The result is the \<open>Data\<close> object: the feature matrix, the edge index (one pair
  \<open>(source, target)\<close> per edge, i.e. the columns of the 2-row tensor) and the edge
  attributes (one row per edge).
\<close>

record data =
  data_x :: "real list list"
  edge_index :: "(nat \<times> nat) list"
  edge_attr :: "real list list"

text \<open>First loop: one row per eclass, remembering its index.\<close>

fun insert_eclasses ::
  "language \<Rightarrow> ('k \<times> 'd \<times> node list) list \<Rightarrow> real list list \<Rightarrow> ('k \<rightharpoonup> nat)
     \<Rightarrow> real list list \<times> ('k \<rightharpoonup> nat)" where
  "insert_eclasses L [] all_nodes eclass_to_ind = (all_nodes, eclass_to_ind)"
| "insert_eclasses L ((eclass_id, d, nodes) # rest) all_nodes eclass_to_ind =
     (let all_nodes' = all_nodes @ [encode_eclass L]
      in insert_eclasses L rest all_nodes' (eclass_to_ind(eclass_id \<mapsto> length all_nodes' - 1)))"

text \<open>
  The innermost loop \<open>for ecid in node\<close>: an argument edge from the enode (index \<open>me\<close>)
  to each child eclass, with attribute \<open>[1, 0]\<close>.
\<close>

fun connect_children ::
  "(int \<Rightarrow> 'k) \<Rightarrow> ('k \<rightharpoonup> nat) \<Rightarrow> nat \<Rightarrow> int list \<Rightarrow> (nat \<times> nat) list \<times> real list list
     \<Rightarrow> error + ((nat \<times> nat) list \<times> real list list)" where
  "connect_children str_of eclass_to_ind me [] (all_edges, attrs) = Inr (all_edges, attrs)"
| "connect_children str_of eclass_to_ind me (ecid # rest) (all_edges, attrs) =
     (case eclass_to_ind (str_of ecid) of
        None \<Rightarrow> Inl KeyError
      | Some j \<Rightarrow>
          connect_children str_of eclass_to_ind me rest
            (all_edges @ [(me, j)], attrs @ [[1, 0]]))"

text \<open>
  The loop \<open>for node in nodes\<close> of one eclass: the enode's row, its membership edge with
  attribute \<open>[0, 1]\<close>, then (for a tuple) its argument edges.
\<close>

fun insert_enodes ::
  "language \<Rightarrow> (int \<Rightarrow> 'k) \<Rightarrow> ('k \<rightharpoonup> nat) \<Rightarrow> 'k \<Rightarrow> node list
     \<Rightarrow> real list list \<times> (nat \<times> nat) list \<times> real list list
     \<Rightarrow> error + (real list list \<times> (nat \<times> nat) list \<times> real list list)" where
  "insert_enodes L str_of eclass_to_ind eclass_id [] st = Inr st"
| "insert_enodes L str_of eclass_to_ind eclass_id (nd # rest) (all_nodes, all_edges, attrs) =
     (case encode_node L nd of
        Inl e \<Rightarrow> Inl e
      | Inr row \<Rightarrow>
          let all_nodes' = all_nodes @ [row] in
          (case eclass_to_ind eclass_id of
             None \<Rightarrow> Inl KeyError
           | Some ci \<Rightarrow>
               let all_edges' = all_edges @ [(ci, length all_nodes' - 1)];
                   attrs' = attrs @ [[0, 1]]
               in (case nd of
                     Scalar v \<Rightarrow>
                       insert_enodes L str_of eclass_to_ind eclass_id rest
                         (all_nodes', all_edges', attrs')
                   | Tup c args \<Rightarrow>
                       (case connect_children str_of eclass_to_ind (length all_nodes' - 1) args
                               (all_edges', attrs') of
                          Inl e \<Rightarrow> Inl e
                        | Inr (all_edges'', attrs'') \<Rightarrow>
                            insert_enodes L str_of eclass_to_ind eclass_id rest
                              (all_nodes', all_edges'', attrs'')))))"

text \<open>Second loop over the classes.\<close>

fun insert_all_enodes ::
  "language \<Rightarrow> (int \<Rightarrow> 'k) \<Rightarrow> ('k \<rightharpoonup> nat) \<Rightarrow> ('k \<times> 'd \<times> node list) list
     \<Rightarrow> real list list \<times> (nat \<times> nat) list \<times> real list list
     \<Rightarrow> error + (real list list \<times> (nat \<times> nat) list \<times> real list list)" where
  "insert_all_enodes L str_of eclass_to_ind [] st = Inr st"
| "insert_all_enodes L str_of eclass_to_ind ((eclass_id, d, nodes) # rest) st =
     (case insert_enodes L str_of eclass_to_ind eclass_id nodes st of
        Inl e \<Rightarrow> Inl e
      | Inr st' \<Rightarrow> insert_all_enodes L str_of eclass_to_ind rest st')"

text \<open>
  \<open>torch_geometric.utils.add_remaining_self_loops(edge_index, edge_attr, fill_value)\<close> is
  a function of the torch_geometric library, not of this repository; it is written here
  after the library's documented behaviour. The number of nodes is taken from the edge
  index (largest index plus one, 0 for no edge). Edges that are not self-loops are
  kept in order; then one self-loop \<open>(i, i)\<close> per node follows. The attribute of a
  self-loop is that of an already present self-loop at the node, else a row filled with
  \<open>fill_value\<close>, which defaults to 1 when no fill value is passed.
\<close>

definition maybe_num_nodes :: "(nat \<times> nat) list \<Rightarrow> nat" where
  "maybe_num_nodes ei =
     (if ei = [] then 0 else fold max (map fst ei @ map snd ei) 0 + 1)"

definition add_remaining_self_loops ::
  "(nat \<times> nat) list \<Rightarrow> real list list \<Rightarrow> real option
     \<Rightarrow> (nat \<times> nat) list \<times> real list list" where
  "add_remaining_self_loops ei ea fill_value =
     (let N = maybe_num_nodes ei;
          w = (case ea of [] \<Rightarrow> 0 | a # _ \<Rightarrow> length a);
          fill = (case fill_value of None \<Rightarrow> 1 | Some f \<Rightarrow> f);
          kept = filter (\<lambda>(e, a). fst e \<noteq> snd e) (zip ei ea);
          loops = filter (\<lambda>(e, a). fst e = snd e) (zip ei ea);
          loop_attr = fold (\<lambda>(e, a) la. la[fst e := a]) loops (replicate N (replicate w fill))
      in (map fst kept @ map (\<lambda>i. (i, i)) [0..<N], map snd kept @ loop_attr))"

text \<open>
  \<open>encode_egraph\<close>. \<open>torch.stack\<close> raises on an empty list of tensors; the call of
  \<open>add_remaining_self_loops\<close> passes no fill value.
\<close>

definition encode_egraph ::
  "language \<Rightarrow> (int \<Rightarrow> 'k) \<Rightarrow> ('k \<times> 'd \<times> node list) list \<Rightarrow> error + data" where
  "encode_egraph L str_of classes =
     (case insert_eclasses L classes [] Map.empty of
        (all_nodes, eclass_to_ind) \<Rightarrow>
          (case insert_all_enodes L str_of eclass_to_ind classes (all_nodes, [], []) of
             Inl e \<Rightarrow> Inl e
           | Inr (all_nodes', all_edges, attrs) \<Rightarrow>
               if all_nodes' = [] \<or> all_edges = [] \<or> attrs = [] then Inl StackEmpty
               else
                 (case add_remaining_self_loops all_edges attrs None of
                    (ei, ea) \<Rightarrow> Inr \<lparr>data_x = all_nodes', edge_index = ei, edge_attr = ea\<rparr>)))"

text \<open>
  What the encoder needs of a search state: every operator node is an instance of a
  class of the vocabulary, every child id names a class of the e-graph, and the e-graph
  holds at least one node (in an e-graph no class is empty).
\<close>

definition total_nodes :: "('k \<times> 'd \<times> node list) list \<Rightarrow> nat" where
  "total_nodes classes = length (concat (map (\<lambda>(k, d, nodes). nodes) classes))"

fun node_ok :: "language \<Rightarrow> (int \<Rightarrow> 'k) \<Rightarrow> 'k set \<Rightarrow> node \<Rightarrow> bool" where
  "node_ok L str_of keys (Scalar v) = True"
| "node_ok L str_of keys (Tup c args) =
     (c \<in> set (all_operators L) \<and> list_all (\<lambda>a. str_of a \<in> keys) args)"

definition well_formed :: "language \<Rightarrow> (int \<Rightarrow> 'k) \<Rightarrow> ('k \<times> 'd \<times> node list) list \<Rightarrow> bool" where
  "well_formed L str_of classes =
     (0 < total_nodes classes \<and>
      list_all (\<lambda>(k, d, nodes). list_all (node_ok L str_of (fst ` set classes)) nodes) classes)"

subsection \<open>Predicates used in the statements and proofs about the encoder\<close>

text \<open>
  An edge built by the second loop, over \<open>E0\<close> eclass rows and \<open>n\<close> rows in all: a
  membership edge from an eclass row to an enode row with attribute \<open>[0, 1]\<close>, or an
  argument edge from an enode row to an eclass row with attribute \<open>[1, 0]\<close>.
\<close>

definition edge_ok :: "nat \<Rightarrow> nat \<Rightarrow> nat \<times> nat \<Rightarrow> real list \<Rightarrow> bool" where
  "edge_ok E0 n e a =
     ((fst e < E0 \<and> E0 \<le> snd e \<and> snd e < n \<and> a = [0, 1]) \<or>
      (E0 \<le> fst e \<and> fst e < n \<and> snd e < E0 \<and> a = [1, 0]))"

text \<open>
  The invariant of the second loop: the edges built so far are of these two kinds, and
  once an enode row exists the index of the last row is the target of an edge.
\<close>

definition enc_inv :: "nat \<Rightarrow> real list list \<times> (nat \<times> nat) list \<times> real list list \<Rightarrow> bool" where
  "enc_inv E0 st =
     (case st of (ns, es, as) \<Rightarrow>
        E0 \<le> length ns \<and> list_all2 (edge_ok E0 (length ns)) es as \<and>
        (length ns = E0 \<or> length ns - 1 \<in> snd ` set es))"

text \<open>
  The attribute an edge of the finished graph carries: all ones on a self-loop, one of
  the two one-hot edge types on any other edge.
\<close>

definition self_loop_attr_ok :: "nat \<times> nat \<Rightarrow> real list \<Rightarrow> bool" where
  "self_loop_attr_ok e a =
     (if fst e = snd e then a = [1, 1] else a = [0, 1] \<or> a = [1, 0])"

section \<open>The training loop (src/ppo.py)\<close>

subsection \<open>Command-line arguments\<close>

text \<open>
  The parsed command line, with the fields the training loop reads, and the namespace
  \<open>parse_args\<close> returns: the same fields plus \<open>batch_size\<close> and \<open>minibatch_size\<close>. Python's
  \<open>//\<close> on ints is floor division, as \<open>div\<close> on \<open>int\<close> is; it raises \<open>ZeroDivisionError\<close>
  on a zero divisor. Floats are modelled as reals.
\<close>

datatype py_error = ZeroDivisionError | ValueError | NameError | PyIndexError | AssertionError

record cli =
  total_timesteps :: int
  num_envs :: int
  num_steps :: int
  gae :: bool
  gamma :: real
  gae_lambda :: real
  num_minibatches :: int
  update_epochs :: int
  norm_adv :: bool
  clip_coef :: real
  target_kl :: "real option"
  print_actions :: bool

record args = cli +
  batch_size :: int
  minibatch_size :: int

text \<open>The defaults of the argument parser.\<close>

definition default_cli :: cli where
  "default_cli =
     \<lparr>total_timesteps = 100000, num_envs = 4, num_steps = 128, gae = True, gamma = 99 / 100, gae_lambda = 95 / 100,
      num_minibatches = 4, update_epochs = 4, norm_adv = True, clip_coef = 2 / 10,
      target_kl = None, print_actions = False\<rparr>"





subsection \<open>Reconstructing the slice of a finished episode\<close>

text \<open>
  The buffers \<open>actions\<close> and \<open>rewards\<close> are tensors of shape \<open>(num_steps, num_envs)\<close>: a list
  of \<open>num_steps\<close> rows. Slicing along the first dimension follows Python: a negative
  bound counts from the end, and bounds are clipped to the length.
\<close>

definition slice_bound :: "int \<Rightarrow> int \<Rightarrow> int" where
  "slice_bound i n = (if i < 0 then max (i + n) 0 else min i n)"

definition py_slice :: "'a list \<Rightarrow> int \<Rightarrow> int \<Rightarrow> 'a list" where
  "py_slice xs lo hi =
     (let n = int (length xs)
      in drop (nat (slice_bound lo n)) (take (nat (slice_bound hi n)) xs))"

definition py_slice_from :: "'a list \<Rightarrow> int \<Rightarrow> 'a list" where
  "py_slice_from xs lo = drop (nat (slice_bound lo (int (length xs)))) xs"

text \<open>The column \<open>[:, env_ind]\<close> of a block of rows.\<close>

definition column :: "'a list list \<Rightarrow> nat \<Rightarrow> 'a list" where
  "column rows env_ind = map (\<lambda>row. row ! env_ind) rows"

text \<open>
  Lines 261 to 269: \<open>start = (step+1) - l\<close>; a negative start takes the tail of the buffer
  from \<open>num_steps + start\<close> followed by its head up to \<open>step\<close>.
\<close>

definition episode_slice :: "'a list list \<Rightarrow> int \<Rightarrow> int \<Rightarrow> int \<Rightarrow> nat \<Rightarrow> 'a list" where
  "episode_slice buf nsteps step l env_ind =
     (let start = (step + 1) - l
      in if start < 0 then
           let start_before = nsteps + start
           in column (py_slice_from buf start_before) env_ind
              @ column (py_slice buf 0 (step + 1)) env_ind
         else column (py_slice buf start (step + 1)) env_ind)"

text \<open>
  \<open>ep_a_r\<close>: the names of the actions (\<open>action_names[int(i)]\<close>, an \<open>IndexError\<close> out of
  range) zipped with the rewards.
\<close>

fun action_names_of :: "string list \<Rightarrow> nat list \<Rightarrow> py_error + string list" where
  "action_names_of action_names [] = Inr []"
| "action_names_of action_names (i # rest) =
     (if i < length action_names then
        (case action_names_of action_names rest of
           Inl e \<Rightarrow> Inl e
         | Inr ns \<Rightarrow> Inr (action_names ! i # ns))
      else Inl PyIndexError)"

definition ep_a_r ::
  "string list \<Rightarrow> nat list list \<Rightarrow> real list list \<Rightarrow> int \<Rightarrow> int \<Rightarrow> int \<Rightarrow> nat
     \<Rightarrow> py_error + (string \<times> real) list" where
  "ep_a_r action_names actions rewards nsteps step l env_ind =
     (case action_names_of action_names (episode_slice actions nsteps step l env_ind) of
        Inl e \<Rightarrow> Inl e
      | Inr ep_actions \<Rightarrow> Inr (zip ep_actions (episode_slice rewards nsteps step l env_ind)))"

text \<open>
  The rollout writes row \<open>step\<close> of a buffer once per step and never clears it between
  rollouts. With the steps of all rollouts numbered \<open>0, 1, 2, ...\<close>, step \<open>g\<close> writes the
  row \<open>g mod num_steps\<close>; \<open>buffer_after ns a G buf\<close> is the buffer after the steps
  \<open>0 ..< G\<close>, where \<open>a g\<close> is the row written at step \<open>g\<close>.
\<close>

fun buffer_after :: "nat \<Rightarrow> (nat \<Rightarrow> 'a list) \<Rightarrow> nat \<Rightarrow> 'a list list \<Rightarrow> 'a list list" where
  "buffer_after ns a 0 buf = buf"
| "buffer_after ns a (Suc g) buf = (buffer_after ns a g buf)[g mod ns := a g]"

subsection \<open>The update loop and its early stop\<close>

text \<open>
  One rollout's update: \<open>update_epochs\<close> passes, each over the minibatches of a fresh
  shuffle. The policy is a value of type \<open>'p\<close>; for a minibatch, \<open>kl p mb\<close> is the
  approximate KL computed from the policy before the step and \<open>sgd p mb\<close> the policy after
  the gradient step. The state carries the policy, the variable \<open>approx_kl\<close> (unbound
  before the first minibatch of the run) and the minibatches whose gradient step has been
  applied, in order.
\<close>

record ('p, 'mb) upd =
  policy :: 'p
  approx_kl :: "real option"
  applied :: "'mb list"

fun run_minibatches ::
  "('p \<Rightarrow> 'mb \<Rightarrow> real) \<Rightarrow> ('p \<Rightarrow> 'mb \<Rightarrow> 'p) \<Rightarrow> 'mb list \<Rightarrow> ('p, 'mb) upd \<Rightarrow> ('p, 'mb) upd" where
  "run_minibatches kl sgd [] st = st"
| "run_minibatches kl sgd (mb # rest) st =
     run_minibatches kl sgd rest
       \<lparr>policy = sgd (policy st) mb, approx_kl = Some (kl (policy st) mb),
        applied = applied st @ [mb]\<rparr>"

text \<open>
  The check \<open>if args.target_kl is not None: if approx_kl > args.target_kl: break\<close> stands
  in the body of the epoch loop, after the loop over the minibatches.
\<close>

fun run_epochs ::
  "('p \<Rightarrow> 'mb \<Rightarrow> real) \<Rightarrow> ('p \<Rightarrow> 'mb \<Rightarrow> 'p) \<Rightarrow> real option \<Rightarrow> 'mb list list
     \<Rightarrow> ('p, 'mb) upd \<Rightarrow> py_error + ('p, 'mb) upd" where
  "run_epochs kl sgd target [] st = Inr st"
| "run_epochs kl sgd target (epoch # rest) st =
     (let st' = run_minibatches kl sgd epoch st
      in case target of
           None \<Rightarrow> run_epochs kl sgd target rest st'
         | Some t \<Rightarrow>
             (case approx_kl st' of
                None \<Rightarrow> Inl NameError
              | Some k \<Rightarrow> if t < k then Inr st' else run_epochs kl sgd target rest st'))"

text \<open>The state after whole epochs, and the test of the early stop on a state.\<close>

definition after_epochs ::
  "('p \<Rightarrow> 'mb \<Rightarrow> real) \<Rightarrow> ('p \<Rightarrow> 'mb \<Rightarrow> 'p) \<Rightarrow> 'mb list list \<Rightarrow> ('p, 'mb) upd \<Rightarrow> ('p, 'mb) upd" where
  "after_epochs kl sgd epochs st = fold (run_minibatches kl sgd) epochs st"

definition kl_exceeds :: "real \<Rightarrow> ('p, 'mb) upd \<Rightarrow> bool" where
  "kl_exceeds t st = (case approx_kl st of None \<Rightarrow> False | Some k \<Rightarrow> t < k)"

subsection \<open>Advantages and returns\<close>

text \<open>
  A row of a \<open>(num_steps, num_envs)\<close> tensor is a vector with one entry per environment;
  the arithmetic of the loop is elementwise on such rows.
\<close>

type_synonym vec = "real list"

definition vadd :: "vec \<Rightarrow> vec \<Rightarrow> vec" where
  "vadd xs ys = map2 (+) xs ys"

definition vsub :: "vec \<Rightarrow> vec \<Rightarrow> vec" where
  "vsub xs ys = map2 (-) xs ys"

definition vmul :: "vec \<Rightarrow> vec \<Rightarrow> vec" where
  "vmul xs ys = map2 (*) xs ys"

definition smul :: "real \<Rightarrow> vec \<Rightarrow> vec" where
  "smul c xs = map ((*) c) xs"

definition one_minus :: "vec \<Rightarrow> vec" where
  "one_minus xs = map (\<lambda>d. 1 - d) xs"

record rollout =
  rewards :: "vec list"
  vals :: "vec list"
  dones :: "vec list"
  next_value :: vec
  next_done :: vec

definition nextnonterminal :: "rollout \<Rightarrow> nat \<Rightarrow> nat \<Rightarrow> vec" where
  "nextnonterminal R T t =
     (if t = T - 1 then one_minus (next_done R) else one_minus (dones R ! (t + 1)))"

text \<open>The body of the GAE loop at step \<open>t\<close>: the new \<open>lastgaelam\<close>.\<close>

definition gae_step :: "real \<Rightarrow> real \<Rightarrow> rollout \<Rightarrow> nat \<Rightarrow> nat \<Rightarrow> vec \<Rightarrow> vec" where
  "gae_step g lam R T t lastgaelam =
     (let nextvalues = (if t = T - 1 then next_value R else vals R ! (t + 1));
          delta = vsub (vadd (rewards R ! t)
                          (vmul (smul g nextvalues) (nextnonterminal R T t)))
                       (vals R ! t)
      in vadd delta (vmul (smul (g * lam) (nextnonterminal R T t)) lastgaelam))"

text \<open>\<open>for t in reversed(range(num_steps))\<close>: the counter runs from \<open>T\<close> down, \<open>t\<close> is one less.\<close>

fun gae_loop :: "real \<Rightarrow> real \<Rightarrow> rollout \<Rightarrow> nat \<Rightarrow> nat \<Rightarrow> vec list \<Rightarrow> vec \<Rightarrow> vec list" where
  "gae_loop g lam R T 0 advantages lastgaelam = advantages"
| "gae_loop g lam R T (Suc t) advantages lastgaelam =
     (let lastgaelam' = gae_step g lam R T t lastgaelam
      in gae_loop g lam R T t (advantages[t := lastgaelam']) lastgaelam')"

definition return_step :: "real \<Rightarrow> rollout \<Rightarrow> nat \<Rightarrow> nat \<Rightarrow> vec list \<Rightarrow> vec" where
  "return_step g R T t returns =
     (let next_return = (if t = T - 1 then next_value R else returns ! (t + 1))
      in vadd (rewards R ! t) (vmul (smul g (nextnonterminal R T t)) next_return))"

fun return_loop :: "real \<Rightarrow> rollout \<Rightarrow> nat \<Rightarrow> nat \<Rightarrow> vec list \<Rightarrow> vec list" where
  "return_loop g R T 0 returns = returns"
| "return_loop g R T (Suc t) returns =
     return_loop g R T t (returns[t := return_step g R T t returns])"

text \<open>
  Lines 277 to 300: the pair \<open>(advantages, returns)\<close> of either branch. \<open>T\<close> is
  \<open>num_steps\<close> and \<open>E\<close> is \<open>num_envs\<close>; \<open>lastgaelam\<close> starts as the scalar 0, which the first
  product broadcasts to a row of zeros.
\<close>

definition compute_advantages ::
  "bool \<Rightarrow> real \<Rightarrow> real \<Rightarrow> nat \<Rightarrow> nat \<Rightarrow> rollout \<Rightarrow> vec list \<times> vec list" where
  "compute_advantages use_gae g lam T E R =
     (if use_gae then
        let advantages = gae_loop g lam R T T (replicate T (replicate E 0)) (replicate E 0)
        in (advantages, map2 vadd advantages (vals R))
      else
        let returns = return_loop g R T T (replicate T (replicate E 0))
        in (map2 vsub returns (vals R), returns))"

text \<open>The shape of a rollout: \<open>T\<close> rows of \<open>E\<close> entries, and \<open>E\<close> bootstrap entries.\<close>

definition shaped :: "nat \<Rightarrow> nat \<Rightarrow> rollout \<Rightarrow> bool" where
  "shaped T E R =
     (length (rewards R) = T \<and> length (vals R) = T \<and> length (dones R) = T \<and>
      list_all (\<lambda>row. length row = E) (rewards R) \<and>
      list_all (\<lambda>row. length row = E) (vals R) \<and>
      list_all (\<lambda>row. length row = E) (dones R) \<and>
      length (next_value R) = E \<and> length (next_done R) = E)"

subsection \<open>The policy loss of a minibatch\<close>

text \<open>
  \<open>tensor.mean()\<close> and \<open>tensor.std()\<close> (the unbiased estimator, dividing by \<open>n - 1\<close>) of a
  one-dimensional tensor; \<open>torch.clamp\<close>. On fewer than two entries \<open>std\<close> is not a number
  in the program; the statements below are about minibatches of at least two entries.
\<close>

definition mean :: "vec \<Rightarrow> real" where
  "mean xs = sum_list xs / real (length xs)"

definition std :: "vec \<Rightarrow> real" where
  "std xs = sqrt (sum_list (map (\<lambda>v. (v - mean xs)\<^sup>2) xs) / (real (length xs) - 1))"

definition clamp :: "real \<Rightarrow> real \<Rightarrow> real \<Rightarrow> real" where
  "clamp v lo hi = min (max v lo) hi"

text \<open>Lines 336 to 343, for the advantages and the ratios of one minibatch.\<close>

definition normalize_adv :: "bool \<Rightarrow> vec \<Rightarrow> vec" where
  "normalize_adv do_norm mb_advantages =
     (if do_norm then
        map (\<lambda>v. (v - mean mb_advantages) / (std mb_advantages + 1 / 10 ^ 8)) mb_advantages
      else mb_advantages)"

definition pg_loss :: "bool \<Rightarrow> real \<Rightarrow> vec \<Rightarrow> vec \<Rightarrow> real" where
  "pg_loss do_norm clip mb_advantages ratio =
     (let mb_advantages' = normalize_adv do_norm mb_advantages;
          pg_loss1 = map2 (\<lambda>v r. - v * r) mb_advantages' ratio;
          pg_loss2 = map2 (\<lambda>v r. - v * clamp r (1 - clip) (1 + clip)) mb_advantages' ratio
      in mean (map2 max pg_loss1 pg_loss2))"

subsection \<open>Quantities in the words of the specification\<close>

text \<open>
  The quantities of the recursion as the specification writes them, for one step \<open>t\<close>
  and one environment \<open>e\<close>: \<open>nonterminal_t\<close> and \<open>next_v_t\<close> come from \<open>dones[t+1]\<close> and
  \<open>values[t+1]\<close>, or from \<open>next_done\<close> and \<open>next_value\<close> at the last step, and
  \<open>delta_t = reward_t + gamma * next_v_t * nonterminal_t - value_t\<close>.
\<close>

definition nonterminal_at :: "rollout \<Rightarrow> nat \<Rightarrow> nat \<Rightarrow> nat \<Rightarrow> real" where
  "nonterminal_at R T t e =
     1 - (if t + 1 < T then dones R ! (t + 1) ! e else next_done R ! e)"

definition next_v_at :: "rollout \<Rightarrow> nat \<Rightarrow> nat \<Rightarrow> nat \<Rightarrow> real" where
  "next_v_at R T t e = (if t + 1 < T then vals R ! (t + 1) ! e else next_value R ! e)"

definition delta_at :: "real \<Rightarrow> rollout \<Rightarrow> nat \<Rightarrow> nat \<Rightarrow> nat \<Rightarrow> real" where
  "delta_at g R T t e =
     rewards R ! t ! e + g * next_v_at R T t e * nonterminal_at R T t e - vals R ! t ! e"

text \<open>
  The standardized advantage of entry \<open>i\<close> of a minibatch, in words: the
  minibatch mean subtracted, the result divided by the minibatch standard deviation plus
  \<open>1e-8\<close>.
\<close>

definition standardized :: "vec \<Rightarrow> nat \<Rightarrow> real" where
  "standardized mb i = (mb ! i - mean mb) / (std mb + 1 / 10 ^ 8)"

section \<open>Properties of the encoder\<close>

subsection \<open>Helper lemmas: arg-max of a one-hot row, the operator loop\<close>




lemma encode_op_loop_found:
  "c \<in> set ops \<Longrightarrow>
   \<exists>k<length ops. ops ! k = c \<and> encode_op_loop oh c (enumerate n ops) = Inr (oh[4 + (n + k) := 1])"
proof (induction ops arbitrary: n)
  case Nil
  then show ?case by simp
next
  case (Cons a ops)
  show ?case
  proof (cases "c = a")
    case True
    then show ?thesis by (intro exI [of _ 0]) simp
  next
    case False
    with Cons.prems have "c \<in> set ops" by simp
    from Cons.IH [OF this, of "Suc n"] obtain k where
      k: "k < length ops" "ops ! k = c"
         "encode_op_loop oh c (enumerate (Suc n) ops) = Inr (oh[4 + (Suc n + k) := 1])"
      by blast
    with False show ?thesis by (intro exI [of _ "Suc k"]) simp
  qed
qed





subsection \<open>Scalar leaves\<close>



subsection \<open>Decoding an encoded row\<close>



subsection \<open>Helper lemmas: the loops of \<open>encode_egraph\<close>\<close>

lemma insert_eclasses_nodes:
  "fst (insert_eclasses L cs ns m) = ns @ replicate (length cs) (encode_eclass L)"
  by (induction cs arbitrary: ns m) (auto simp: Let_def replicate_app_Cons_same)

lemma insert_eclasses_dom:
  "dom (snd (insert_eclasses L cs ns m)) = dom m \<union> fst ` set cs"
proof (induction cs arbitrary: ns m)
  case Nil
  then show ?case by simp
next
  case (Cons c cs)
  obtain cid d nodes where c: "c = (cid, d, nodes)" by (cases c)
  show ?case unfolding c by (auto simp: Let_def Cons.IH)
qed

lemma insert_eclasses_bound:
  "(\<And>k j. m k = Some j \<Longrightarrow> j < length ns) \<Longrightarrow>
   snd (insert_eclasses L cs ns m) k = Some j \<Longrightarrow> j < length ns + length cs"
proof (induction cs arbitrary: ns m)
  case Nil
  then show ?case by simp
next
  case (Cons c cs)
  obtain cid d nodes where c: "c = (cid, d, nodes)" by (cases c)
  have "j < length (ns @ [encode_eclass L]) + length cs"
  proof (rule Cons.IH)
    fix k' j' assume "(m(cid \<mapsto> length (ns @ [encode_eclass L]) - 1)) k' = Some j'"
    then show "j' < length (ns @ [encode_eclass L])"
      using Cons.prems(1) [of k' j'] by (auto split: if_splits simp: less_Suc_eq)
  next
    show "snd (insert_eclasses L cs (ns @ [encode_eclass L])
            (m(cid \<mapsto> length (ns @ [encode_eclass L]) - 1))) k = Some j"
      using Cons.prems(2) c by (simp add: Let_def)
  qed
  then show ?case by simp
qed

lemma edge_ok_mono: "edge_ok E0 n e a \<Longrightarrow> n \<le> n' \<Longrightarrow> edge_ok E0 n' e a"
  by (auto simp: edge_ok_def)

lemma edges_ok_mono:
  "list_all2 (edge_ok E0 n) es as \<Longrightarrow> n \<le> n' \<Longrightarrow> list_all2 (edge_ok E0 n') es as"
  by (erule list_all2_mono) (rule edge_ok_mono)

lemma connect_children_ok:
  assumes "\<forall>k j. m k = Some j \<longrightarrow> j < E0"
    and "E0 \<le> me" and "me < n"
  shows "list_all (\<lambda>a. str_of a \<in> dom m) args \<Longrightarrow> list_all2 (edge_ok E0 n) es as \<Longrightarrow>
     \<exists>es' as'. connect_children str_of m me args (es, as) = Inr (es', as') \<and>
        list_all2 (edge_ok E0 n) es' as' \<and> set es \<subseteq> set es'"
proof (induction args arbitrary: es as)
  case Nil
  then show ?case by simp
next
  case (Cons a args)
  from Cons.prems(1) obtain j where j: "m (str_of a) = Some j" by auto
  with assms(1) have "j < E0" by blast
  with assms(2,3) have "edge_ok E0 n (me, j) [1, 0]" by (simp add: edge_ok_def)
  with Cons.prems(2) have "list_all2 (edge_ok E0 n) (es @ [(me, j)]) (as @ [[1, 0]])"
    by (simp add: list_all2_appendI)
  from Cons.IH [OF _ this] Cons.prems(1) obtain es' as' where
    "connect_children str_of m me args (es @ [(me, j)], as @ [[1, 0]]) = Inr (es', as')"
    "list_all2 (edge_ok E0 n) es' as'" "set (es @ [(me, j)]) \<subseteq> set es'"
    by auto
  with j show ?case by auto
qed

lemma encode_node_ok:
  "node_ok L str_of keys nd \<Longrightarrow> \<exists>row. encode_node L nd = Inr row"
proof (cases nd)
  case (Scalar v)
  then show ?thesis by simp
next
  case (Tup c args)
  assume "node_ok L str_of keys nd"
  with Tup have "c \<in> set (all_operators L)" by simp
  from encode_op_loop_found [OF this, of "(zeros (num_node_features L))[1 := 1]" 0] Tup
  show ?thesis by auto
qed

lemma insert_enodes_ok:
  assumes m: "\<forall>k j. m k = Some j \<longrightarrow> j < E0" and ci: "m cid = Some ci"
  shows "list_all (node_ok L str_of (dom m)) nodes \<Longrightarrow> enc_inv E0 (ns, es, as) \<Longrightarrow>
     \<exists>rows es' as'. insert_enodes L str_of m cid nodes (ns, es, as) = Inr (ns @ rows, es', as') \<and>
        map Inr rows = map (encode_node L) nodes \<and> enc_inv E0 (ns @ rows, es', as')"
proof (induction nodes arbitrary: ns es as)
  case Nil
  then show ?case by simp
next
  case (Cons nd nodes)
  from Cons.prems(1) have ok: "node_ok L str_of (dom m) nd" by simp
  from encode_node_ok [OF this] obtain row where row: "encode_node L nd = Inr row" by blast
  let ?ns = "ns @ [row]"
  let ?me = "length ?ns - 1"
  from Cons.prems(2) have E0: "E0 \<le> length ns" and es: "list_all2 (edge_ok E0 (length ns)) es as"
    by (simp_all add: enc_inv_def)
  from m ci have "ci < E0" by blast
  with E0 have "edge_ok E0 (length ?ns) (ci, ?me) [0, 1]" by (simp add: edge_ok_def)
  with edges_ok_mono [OF es, of "length ?ns"]
  have es1: "list_all2 (edge_ok E0 (length ?ns)) (es @ [(ci, ?me)]) (as @ [[0, 1]])"
    by (simp add: list_all2_appendI)
  have "\<exists>es2 as2. (case nd of
           Scalar v \<Rightarrow> Inr (es @ [(ci, ?me)], as @ [[0, 1]])
         | Tup c args \<Rightarrow> connect_children str_of m ?me args (es @ [(ci, ?me)], as @ [[0, 1]]))
        = Inr (es2, as2) \<and> list_all2 (edge_ok E0 (length ?ns)) es2 as2 \<and>
          set (es @ [(ci, ?me)]) \<subseteq> set es2"
  proof (cases nd)
    case (Scalar v)
    with es1 show ?thesis by auto
  next
    case (Tup c args)
    with ok have "list_all (\<lambda>a. str_of a \<in> dom m) args" by simp
    from connect_children_ok [OF m _ _ this es1, of ?me] E0 Tup show ?thesis by simp
  qed
  then obtain es2 as2 where
    step: "(case nd of
           Scalar v \<Rightarrow> Inr (es @ [(ci, ?me)], as @ [[0, 1]])
         | Tup c args \<Rightarrow> connect_children str_of m ?me args (es @ [(ci, ?me)], as @ [[0, 1]]))
        = Inr (es2, as2)"
    and es2: "list_all2 (edge_ok E0 (length ?ns)) es2 as2"
    and sub: "set (es @ [(ci, ?me)]) \<subseteq> set es2"
    by blast
  from sub have "(ci, ?me) \<in> set es2" by auto
  then have "?me \<in> snd ` set es2" by force
  with E0 es2 have "enc_inv E0 (?ns, es2, as2)" by (simp add: enc_inv_def)
  from Cons.IH [OF _ this] Cons.prems(1) obtain rows es' as' where
    rest: "insert_enodes L str_of m cid nodes (?ns, es2, as2) = Inr (?ns @ rows, es', as')"
      "map Inr rows = map (encode_node L) nodes" "enc_inv E0 (?ns @ rows, es', as')"
    by auto
  have "insert_enodes L str_of m cid (nd # nodes) (ns, es, as) = Inr (ns @ (row # rows), es', as')"
    using row ci step rest(1) by (cases nd) (simp_all add: Let_def)
  with rest(2,3) row show ?case by (intro exI [of _ "row # rows"]) auto
qed

lemma insert_all_enodes_ok:
  assumes m: "\<forall>k j. m k = Some j \<longrightarrow> j < E0"
  shows "list_all (\<lambda>(k, d, nodes). k \<in> dom m \<and> list_all (node_ok L str_of (dom m)) nodes) cs \<Longrightarrow>
     enc_inv E0 (ns, es, as) \<Longrightarrow>
     \<exists>rows es' as'. insert_all_enodes L str_of m cs (ns, es, as) = Inr (ns @ rows, es', as') \<and>
        map Inr rows = map (encode_node L) (concat (map (\<lambda>(k, d, nodes). nodes) cs)) \<and>
        enc_inv E0 (ns @ rows, es', as')"
proof (induction cs arbitrary: ns es as)
  case Nil
  then show ?case by simp
next
  case (Cons c cs)
  obtain cid d nodes where c: "c = (cid, d, nodes)" by (cases c)
  with Cons.prems(1) obtain ci where ci: "m cid = Some ci"
    and nodes: "list_all (node_ok L str_of (dom m)) nodes" by auto
  from insert_enodes_ok [OF m ci nodes Cons.prems(2)] obtain rows es1 as1 where
    one: "insert_enodes L str_of m cid nodes (ns, es, as) = Inr (ns @ rows, es1, as1)"
      "map Inr rows = map (encode_node L) nodes" "enc_inv E0 (ns @ rows, es1, as1)"
    by blast
  from Cons.IH [OF _ one(3)] Cons.prems(1) obtain rows' es' as' where
    rest: "insert_all_enodes L str_of m cs (ns @ rows, es1, as1) = Inr ((ns @ rows) @ rows', es', as')"
      "map Inr rows' = map (encode_node L) (concat (map (\<lambda>(k, d, nodes). nodes) cs))"
      "enc_inv E0 ((ns @ rows) @ rows', es', as')"
    by auto
  with one c show ?case by (intro exI [of _ "rows @ rows'"]) auto
qed

lemma edge_ok_no_loop: "edge_ok E0 n e a \<Longrightarrow> fst e \<noteq> snd e"
  by (auto simp: edge_ok_def)

lemma edge_ok_attr: "edge_ok E0 n e a \<Longrightarrow> a = [0, 1] \<or> a = [1, 0]"
  by (auto simp: edge_ok_def)

lemma edge_ok_bound: "edge_ok E0 n e a \<Longrightarrow> fst e < n \<and> snd e < n"
  by (auto simp: edge_ok_def)

lemma maybe_num_nodes_eq:
  assumes es: "list_all2 (edge_ok E0 n) es as" and last: "n - 1 \<in> snd ` set es"
  shows "maybe_num_nodes es = Suc (n - 1)"
proof -
  let ?xs = "map fst es @ map snd es"
  from last have ne: "es \<noteq> []" by auto
  have bound: "\<forall>y\<in>set ?xs. y \<le> n - 1"
  proof
    fix y assume "y \<in> set ?xs"
    then obtain e where e: "e \<in> set es" "y = fst e \<or> y = snd e" by auto
    from e(1) obtain i where i: "i < length es" "es ! i = e" by (auto simp: in_set_conv_nth)
    with es have "edge_ok E0 n e (as ! i)" by (auto dest: list_all2_nthD)
    from edge_ok_bound [OF this] e(2) show "y \<le> n - 1" by auto
  qed
  have "fold max ?xs 0 = Max (set (0 # ?xs))" by (simp only: Max.set_eq_fold)
  also have "\<dots> = n - 1"
  proof (rule Max_eqI)
    show "finite (set (0 # ?xs))" by simp
    show "\<And>y. y \<in> set (0 # ?xs) \<Longrightarrow> y \<le> n - 1" using bound by auto
    show "n - 1 \<in> set (0 # ?xs)" using last by auto
  qed
  finally show ?thesis using ne by (simp add: maybe_num_nodes_def)
qed

lemma add_remaining_self_loops_eq:
  assumes es: "list_all2 (edge_ok E0 n) es as" and last: "n - 1 \<in> snd ` set es" and n: "0 < n"
  shows "add_remaining_self_loops es as None =
           (es @ map (\<lambda>i. (i, i)) [0..<n], as @ replicate n [1, 1])"
proof -
  from es have len: "length es = length as" by (rule list_all2_lengthD)
  have P: "\<forall>p\<in>set (zip es as). edge_ok E0 n (fst p) (snd p)"
    using es by (auto simp: list_all2_iff)
  have Q: "\<forall>p\<in>set (zip es as). fst (fst p) \<noteq> snd (fst p)"
    using P edge_ok_no_loop by blast
  have keep: "filter (\<lambda>(e, a). fst e \<noteq> snd e) (zip es as) = zip es as"
    using Q by (simp add: filter_id_conv split_beta)
  have none: "filter (\<lambda>(e, a). fst e = snd e) (zip es as) = []"
    using Q by (simp add: filter_empty_conv split_beta)
  from last len obtain a as' where as: "as = a # as'" by (cases as) auto
  with len obtain e es' where "es = e # es'" by (cases es) auto
  with es as have "edge_ok E0 n e a" by simp
  from edge_ok_attr [OF this] have w: "length a = 2" by auto
  from maybe_num_nodes_eq [OF es last] n have N: "maybe_num_nodes es = n" by simp
  have two: "replicate 2 (1::real) = [1, 1]" by (simp add: numeral_2_eq_2)
  show ?thesis
    unfolding add_remaining_self_loops_def Let_def keep none N
    using len w as two by simp
qed

lemma well_formed_classes:
  assumes wf: "well_formed L str_of classes"
    and dom: "dom m = fst ` set classes"
  shows "list_all (\<lambda>(k, d, nodes). k \<in> dom m \<and> list_all (node_ok L str_of (dom m)) nodes) classes"
proof -
  have "\<forall>c\<in>set classes. (case c of (k, d, nodes) \<Rightarrow>
          k \<in> dom m \<and> list_all (node_ok L str_of (dom m)) nodes)"
  proof
    fix c assume c: "c \<in> set classes"
    obtain k d nodes where kd: "c = (k, d, nodes)" by (cases c)
    from c kd have "k \<in> dom m" unfolding dom by force
    moreover from wf c kd have "list_all (node_ok L str_of (dom m)) nodes"
      unfolding dom well_formed_def by (auto simp: list_all_iff)
    ultimately show "case c of (k, d, nodes) \<Rightarrow>
          k \<in> dom m \<and> list_all (node_ok L str_of (dom m)) nodes"
      using kd by simp
  qed
  then show ?thesis by (simp add: list_all_iff)
qed

lemma encode_egraph_shape:
  assumes wf: "well_formed L str_of classes"
  shows "\<exists>rows es as.
     encode_egraph L str_of classes =
       Inr \<lparr>data_x = replicate (length classes) (encode_eclass L) @ rows,
            edge_index = es @ map (\<lambda>i. (i, i)) [0..<length classes + total_nodes classes],
            edge_attr = as @ replicate (length classes + total_nodes classes) [1, 1]\<rparr> \<and>
     map Inr rows = map (encode_node L) (concat (map (\<lambda>(k, d, nodes). nodes) classes)) \<and>
     list_all2 (edge_ok (length classes) (length classes + total_nodes classes)) es as"
proof -
  let ?E = "length classes"
  let ?N = "total_nodes classes"
  obtain ns0 m where first: "insert_eclasses L classes [] Map.empty = (ns0, m)"
    by (cases "insert_eclasses L classes [] Map.empty")
  from insert_eclasses_nodes [of L classes "[]" Map.empty] first
  have ns0: "ns0 = replicate ?E (encode_eclass L)" by simp
  from insert_eclasses_dom [of L classes "[]" Map.empty] first
  have dom: "dom m = fst ` set classes" by simp
  have bound: "\<forall>k j. m k = Some j \<longrightarrow> j < ?E"
    using insert_eclasses_bound [of Map.empty "[]" L classes] first by auto
  have inv0: "enc_inv ?E (ns0, [], [])" by (simp add: enc_inv_def ns0)
  from insert_all_enodes_ok [OF bound well_formed_classes [OF wf dom] inv0]
  obtain rows es as where
    second: "insert_all_enodes L str_of m classes (ns0, [], []) = Inr (ns0 @ rows, es, as)"
    and rows: "map Inr rows = map (encode_node L) (concat (map (\<lambda>(k, d, nodes). nodes) classes))"
    and inv: "enc_inv ?E (ns0 @ rows, es, as)"
    by blast
  from rows have "length (map Inr rows :: (error + real list) list) = ?N"
    by (simp add: total_nodes_def)
  then have lrows: "length rows = ?N" by simp
  from wf have N: "0 < ?N" by (simp add: well_formed_def)
  from inv lrows ns0 N have es: "list_all2 (edge_ok ?E (?E + ?N)) es as"
    and last: "?E + ?N - 1 \<in> snd ` set es"
    by (simp_all add: enc_inv_def)
  from last have "es \<noteq> []" by auto
  moreover from this es have "as \<noteq> []" by (auto dest: list_all2_lengthD)
  moreover have "ns0 @ rows \<noteq> []" using lrows N by auto
  moreover from add_remaining_self_loops_eq [OF es last] N
  have "add_remaining_self_loops es as None =
     (es @ map (\<lambda>i. (i, i)) [0..<?E + ?N], as @ replicate (?E + ?N) [1, 1])" by simp
  ultimately have "encode_egraph L str_of classes =
       Inr \<lparr>data_x = replicate ?E (encode_eclass L) @ rows,
            edge_index = es @ map (\<lambda>i. (i, i)) [0..<?E + ?N],
            edge_attr = as @ replicate (?E + ?N) [1, 1]\<rparr>"
    unfolding encode_egraph_def first using second ns0 by simp
  with rows es show ?thesis by blast
qed

lemma encode_op_loop_row:
  "encode_op_loop oh c xs = Inr row \<Longrightarrow> \<exists>j. row = oh[4 + j := 1]"
  by (induction oh c xs rule: encode_op_loop.induct) (auto split: if_splits)

lemma encode_node_row:
  assumes "encode_node L nd = Inr row"
  shows "length row = num_node_features L \<and> row ! 0 = 0"
proof (cases nd)
  case (Scalar v)
  with assms show ?thesis by (auto simp: zeros_def num_node_features_def)
next
  case (Tup c args)
  with assms encode_op_loop_row obtain j where
    "row = (zeros (num_node_features L))[1 := 1, 4 + j := 1]" by fastforce
  then show ?thesis by (simp add: zeros_def num_node_features_def)
qed

lemma encode_node_rows:
  "map Inr rows = map (encode_node L) nodes \<Longrightarrow> row \<in> set rows \<Longrightarrow>
   length row = num_node_features L \<and> row ! 0 = 0"
proof (induction rows arbitrary: nodes)
  case Nil
  then show ?case by simp
next
  case (Cons r rows)
  then obtain nd nodes' where n: "nodes = nd # nodes'" by (cases nodes) auto
  with Cons.prems(1) have r: "encode_node L nd = Inr r"
    and rest: "map Inr rows = map (encode_node L) nodes'" by simp_all
  show ?case
  proof (cases "row = r")
    case True
    with encode_node_row [OF r] show ?thesis by simp
  next
    case False
    with Cons.prems(2) have "row \<in> set rows" by simp
    from Cons.IH [OF rest this] show ?thesis .
  qed
qed

subsection \<open>Rows of the encoded graph\<close>

text \<open>
  C7. For every well-formed search state with \<open>E\<close> eclasses and \<open>N\<close> operator nodes in
  all (well-formedness gives \<open>E \<ge> 1\<close>), \<open>encode_egraph\<close> returns a graph whose feature
  matrix has exactly \<open>E + N\<close> rows, every row of width 4 plus the number of operator
  kinds (a function of the vocabulary alone), with the \<open>E\<close> eclass rows (\<open>is_eclass = 1\<close>)
  first and after them the rows of the enodes (\<open>is_eclass = 0\<close>), in iteration order.
\<close>

theorem encode_egraph_rows:
  assumes "well_formed L str_of classes"
  shows "\<exists>g. encode_egraph L str_of classes = Inr g \<and>
     1 \<le> length classes \<and>
     length (data_x g) = length classes + total_nodes classes \<and>
     (\<forall>row\<in>set (data_x g). length row = 4 + length (all_operators L)) \<and>
     take (length classes) (data_x g) = replicate (length classes) (encode_eclass L) \<and>
     encode_eclass L ! 0 = 1 \<and>
     map Inr (drop (length classes) (data_x g)) =
       map (encode_node L) (concat (map (\<lambda>(k, d, nodes). nodes) classes)) \<and>
     (\<forall>row\<in>set (drop (length classes) (data_x g)). row ! 0 = 0)"
proof -
  let ?E = "length classes"
  from encode_egraph_shape [OF assms] obtain rows es as where
    g: "encode_egraph L str_of classes =
       Inr \<lparr>data_x = replicate ?E (encode_eclass L) @ rows,
            edge_index = es @ map (\<lambda>i. (i, i)) [0..<?E + total_nodes classes],
            edge_attr = as @ replicate (?E + total_nodes classes) [1, 1]\<rparr>"
    and rows: "map Inr rows = map (encode_node L) (concat (map (\<lambda>(k, d, nodes). nodes) classes))"
    by blast
  from rows have "length (map Inr rows :: (error + real list) list) = total_nodes classes"
    by (simp add: total_nodes_def)
  then have lrows: "length rows = total_nodes classes" by simp
  from assms have "classes \<noteq> []" by (auto simp: well_formed_def total_nodes_def)
  then have E: "1 \<le> ?E" by (cases classes) simp_all
  have ec: "length (encode_eclass L) = 4 + length (all_operators L)" "encode_eclass L ! 0 = 1"
    by (simp_all add: encode_eclass_def zeros_def num_node_features_def)
  have w: "\<forall>row\<in>set (replicate ?E (encode_eclass L) @ rows).
             length row = 4 + length (all_operators L)"
    using encode_node_rows [OF rows] ec by (auto simp: num_node_features_def)
  have z: "\<forall>row\<in>set rows. row ! 0 = 0"
    using encode_node_rows [OF rows] by blast
  show ?thesis
    by (rule exI, rule conjI, rule g) (use E lrows w z ec rows in simp)
qed

theorem encode_egraph_rows_witness:
  "well_formed \<lparr>all_operators = [OpType ''Add'' [''x'', ''y''], OpType ''Mul'' [''x'', ''y'']]\<rparr>
     (\<lambda>i. if i = 0 then ''0'' else ''1'')
     [(''0'', (), [Scalar 2]), (''1'', (), [Scalar 3]),
      (''2'', (), [Tup (OpType ''Add'' [''x'', ''y'']) [0, 1]])]
   \<and> (\<exists>g. encode_egraph \<lparr>all_operators = [OpType ''Add'' [''x'', ''y''], OpType ''Mul'' [''x'', ''y'']]\<rparr>
          (\<lambda>i. if i = 0 then ''0'' else ''1'')
          [(''0'', (), [Scalar 2]), (''1'', (), [Scalar 3]),
           (''2'', (), [Tup (OpType ''Add'' [''x'', ''y'']) [0, 1]])] = Inr g
        \<and> length (data_x g) = 6
        \<and> take 3 (data_x g) = [[1, 0, 0, 0, 0, 0], [1, 0, 0, 0, 0, 0], [1, 0, 0, 0, 0, 0]])"
proof -
  let ?L = "\<lparr>all_operators = [OpType ''Add'' [''x'', ''y''], OpType ''Mul'' [''x'', ''y'']]\<rparr>"
  let ?s = "\<lambda>i::int. if i = 0 then ''0'' else ''1''"
  let ?c = "[(''0'', (), [Scalar 2]), (''1'', (), [Scalar 3]),
      (''2'', (), [Tup (OpType ''Add'' [''x'', ''y'']) [0, 1]])]"
  have wf: "well_formed ?L ?s ?c"
    by (simp add: well_formed_def total_nodes_def)
  from encode_egraph_rows [OF wf] obtain g where
    "encode_egraph ?L ?s ?c = Inr g" "length (data_x g) = length ?c + total_nodes ?c"
    "take (length ?c) (data_x g) = replicate (length ?c) (encode_eclass ?L)"
    by blast
  then have "encode_egraph ?L ?s ?c = Inr g \<and> length (data_x g) = 6
        \<and> take 3 (data_x g) = [[1, 0, 0, 0, 0, 0], [1, 0, 0, 0, 0, 0], [1, 0, 0, 0, 0, 0]]"
    by (simp add: total_nodes_def encode_eclass_def zeros_def num_node_features_def numeral_eq_Suc)
  with wf show ?thesis by blast
qed

subsection \<open>Self-loops of the encoded graph\<close>

text \<open>
  C8 (as amended). In every graph produced by \<open>encode_egraph\<close> a self-loop is present for
  every node (eclass and enode alike), and each self-loop carries the attribute
  \<open>[1, 1]\<close> (the library's default fill value, since no fill value is passed), which is
  distinct from the membership attribute \<open>[0, 1]\<close> and the argument attribute \<open>[1, 0]\<close>
  carried by every other edge.
\<close>

theorem encode_egraph_self_loops:
  assumes "well_formed L str_of classes"
  shows "\<exists>g. encode_egraph L str_of classes = Inr g \<and>
     length (data_x g) = length classes + total_nodes classes \<and>
     (\<forall>i<length (data_x g). (i, i) \<in> set (edge_index g)) \<and>
     list_all2 self_loop_attr_ok (edge_index g) (edge_attr g)"
proof -
  let ?E = "length classes"
  let ?n = "?E + total_nodes classes"
  from encode_egraph_shape [OF assms] obtain rows es as where
    g: "encode_egraph L str_of classes =
       Inr \<lparr>data_x = replicate ?E (encode_eclass L) @ rows,
            edge_index = es @ map (\<lambda>i. (i, i)) [0..<?n],
            edge_attr = as @ replicate ?n [1, 1]\<rparr>"
    and rows: "map Inr rows = map (encode_node L) (concat (map (\<lambda>(k, d, nodes). nodes) classes))"
    and es: "list_all2 (edge_ok ?E ?n) es as"
    by blast
  from rows have "length (map Inr rows :: (error + real list) list) = total_nodes classes"
    by (simp add: total_nodes_def)
  then have lrows: "length rows = total_nodes classes" by simp
  have a: "list_all2 self_loop_attr_ok es as"
    using es
    by (rule list_all2_mono) (auto simp: self_loop_attr_ok_def dest: edge_ok_no_loop edge_ok_attr)
  have b: "list_all2 self_loop_attr_ok (map (\<lambda>i. (i, i)) [0..<?n]) (replicate ?n [1, 1])"
    by (simp add: list_all2_conv_all_nth self_loop_attr_ok_def)
  from a b have "list_all2 self_loop_attr_ok (es @ map (\<lambda>i. (i, i)) [0..<?n]) (as @ replicate ?n [1, 1])"
    by (rule list_all2_appendI)
  with g lrows show ?thesis by auto
qed

theorem encode_egraph_self_loops_witness:
  "well_formed \<lparr>all_operators = []\<rparr> (\<lambda>i. '''') [(''0'', (), [Scalar 5])]
   \<and> (\<exists>g. encode_egraph \<lparr>all_operators = []\<rparr> (\<lambda>i. '''') [(''0'', (), [Scalar 5])] = Inr g
        \<and> (0, 0) \<in> set (edge_index g) \<and> (1, 1) \<in> set (edge_index g)
        \<and> list_all2 self_loop_attr_ok (edge_index g) (edge_attr g))"
proof -
  have wf: "well_formed \<lparr>all_operators = []\<rparr> (\<lambda>i. '''') [(''0'', (), [Scalar 5])]"
    by (simp add: well_formed_def total_nodes_def)
  let ?c = "[(''0'', (), [Scalar 5])] :: (string \<times> unit \<times> node list) list"
  from encode_egraph_self_loops [OF wf] obtain g where
    g: "encode_egraph \<lparr>all_operators = []\<rparr> (\<lambda>i. '''') ?c = Inr g"
      "length (data_x g) = length ?c + total_nodes ?c"
      "\<forall>i<length (data_x g). (i, i) \<in> set (edge_index g)"
      "list_all2 self_loop_attr_ok (edge_index g) (edge_attr g)"
    by blast
  from g(2) have "length (data_x g) = 2" by (simp add: total_nodes_def)
  with g(3) have "(0, 0) \<in> set (edge_index g)" "(1, 1) \<in> set (edge_index g)" by simp_all
  with g(1,4) wf show ?thesis by blast
qed

text \<open>
  C8 as stated asks for a zero edge-type attribute on the self-loops; for the e-graph of
  one class holding the scalar 5 both self-loops carry \<open>[1, 1]\<close>.
\<close>

theorem encode_egraph_self_loop_attr_counterexample:
  "encode_egraph \<lparr>all_operators = []\<rparr> (\<lambda>i. '''') [(''0'', (), [Scalar 5])] =
     Inr \<lparr>data_x = [[1, 0, 0, 0], [0, 0, 1, 5]],
          edge_index = [(0, 1), (0, 0), (1, 1)],
          edge_attr = [[0, 1], [1, 1], [1, 1]]\<rparr>
   \<and> [1, 1] \<noteq> [0, 0 :: real]"
  by (simp add: encode_egraph_def encode_eclass_def zeros_def num_node_features_def
      add_remaining_self_loops_def maybe_num_nodes_def numeral_eq_Suc upt_rec)

section \<open>Properties of the training loop\<close>

subsection \<open>Startup: batch and minibatch sizes\<close>




subsection \<open>The early stop on the approximate KL\<close>

lemma run_minibatches_applied:
  "applied (run_minibatches kl sgd epoch st) = applied st @ epoch"
  by (induction epoch arbitrary: st) simp_all

lemma run_minibatches_kl:
  "epoch \<noteq> [] \<Longrightarrow> \<exists>k. approx_kl (run_minibatches kl sgd epoch st) = Some k"
proof (induction epoch arbitrary: st)
  case Nil
  then show ?case by simp
next
  case (Cons mb epoch)
  show ?case
  proof (cases "epoch = []")
    case True
    then show ?thesis by simp
  next
    case False
    from Cons.IH [OF this] show ?thesis by simp
  qed
qed

lemma after_epochs_applied:
  "applied (after_epochs kl sgd epochs st) = applied st @ concat epochs"
  by (induction epochs arbitrary: st) (simp_all add: after_epochs_def run_minibatches_applied)

lemma after_epochs_Cons:
  "after_epochs kl sgd (epoch # epochs) st =
     after_epochs kl sgd epochs (run_minibatches kl sgd epoch st)"
  by (simp add: after_epochs_def)

text \<open>
  C4 (as amended). When a target KL threshold is configured, the approximate KL is tested
  once per epoch, after all the minibatches of the epoch have had their gradient step:
  the update runs the epochs in order, whole, and stops after the first epoch whose last
  minibatch left an approximate KL above the threshold; the remaining epochs are skipped
  and the steps already applied are kept. (Every epoch holds at least one minibatch.)
\<close>

theorem run_epochs_early_stop:
  assumes "list_all (\<lambda>epoch. epoch \<noteq> []) epochs"
  shows "\<exists>n\<le>length epochs.
     run_epochs kl sgd (Some t) epochs st = Inr (after_epochs kl sgd (take n epochs) st) \<and>
     applied (after_epochs kl sgd (take n epochs) st) = applied st @ concat (take n epochs) \<and>
     (n < length epochs \<longrightarrow> 0 < n \<and> kl_exceeds t (after_epochs kl sgd (take n epochs) st)) \<and>
     (\<forall>j. 0 < j \<and> j < n \<longrightarrow> \<not> kl_exceeds t (after_epochs kl sgd (take j epochs) st))"
  using assms
proof (induction epochs arbitrary: st)
  case Nil
  then show ?case by (simp add: after_epochs_def)
next
  case (Cons epoch epochs)
  let ?st = "run_minibatches kl sgd epoch st"
  from Cons.prems have ne: "epoch \<noteq> []" and rest: "list_all (\<lambda>epoch. epoch \<noteq> []) epochs"
    by simp_all
  from run_minibatches_kl [OF ne] obtain k where k: "approx_kl ?st = Some k" by blast
  show ?case
  proof (cases "t < k")
    case True
    have "run_epochs kl sgd (Some t) (epoch # epochs) st = Inr ?st"
      using k True by (simp add: Let_def)
    moreover have "after_epochs kl sgd (take 1 (epoch # epochs)) st = ?st"
      by (simp add: after_epochs_def)
    moreover have "kl_exceeds t ?st" using k True by (simp add: kl_exceeds_def)
    ultimately show ?thesis
      by (intro exI [of _ 1]) (simp add: run_minibatches_applied)
  next
    case False
    from Cons.IH [OF rest, of ?st] obtain n where n: "n \<le> length epochs"
      "run_epochs kl sgd (Some t) epochs ?st = Inr (after_epochs kl sgd (take n epochs) ?st)"
      "n < length epochs \<longrightarrow> 0 < n \<and> kl_exceeds t (after_epochs kl sgd (take n epochs) ?st)"
      "\<forall>j. 0 < j \<and> j < n \<longrightarrow> \<not> kl_exceeds t (after_epochs kl sgd (take j epochs) ?st)"
      by blast
    have run: "run_epochs kl sgd (Some t) (epoch # epochs) st =
        Inr (after_epochs kl sgd (take (Suc n) (epoch # epochs)) st)"
      using k False n(2) by (simp add: Let_def after_epochs_Cons)
    have first: "\<not> kl_exceeds t (after_epochs kl sgd (take 1 (epoch # epochs)) st)"
      using k False by (simp add: kl_exceeds_def after_epochs_def)
    have later: "\<not> kl_exceeds t (after_epochs kl sgd (take j (epoch # epochs)) st)"
      if "0 < j" "j < Suc n" for j
    proof (cases j)
      case 0
      with that show ?thesis by simp
    next
      case (Suc j')
      show ?thesis
      proof (cases "j' = 0")
        case True
        with Suc first show ?thesis by simp
      next
        case False
        with that Suc n(4) show ?thesis by (simp add: after_epochs_Cons)
      qed
    qed
    show ?thesis
    proof (intro exI [of _ "Suc n"] conjI impI allI)
      show "Suc n \<le> length (epoch # epochs)" using n(1) by simp
      show "run_epochs kl sgd (Some t) (epoch # epochs) st =
        Inr (after_epochs kl sgd (take (Suc n) (epoch # epochs)) st)" by (rule run)
      show "applied (after_epochs kl sgd (take (Suc n) (epoch # epochs)) st) =
        applied st @ concat (take (Suc n) (epoch # epochs))"
        by (rule after_epochs_applied)
      show "0 < Suc n" by simp
      show "kl_exceeds t (after_epochs kl sgd (take (Suc n) (epoch # epochs)) st)"
        if "Suc n < length (epoch # epochs)"
        using that n(3) by (simp add: after_epochs_Cons)
      show "\<not> kl_exceeds t (after_epochs kl sgd (take j (epoch # epochs)) st)"
        if "0 < j \<and> j < Suc n" for j
        using that later by blast
    qed
  qed
qed

theorem run_epochs_early_stop_witness:
  "list_all (\<lambda>epoch. epoch \<noteq> []) [[0, 1], [1, 0], [0, 1 :: nat]]
   \<and> run_epochs (\<lambda>p mb. if mb = (0::nat) then 1 else 0) (\<lambda>(p::nat) mb. p + 1) (Some (1 / 100))
        [[0, 1], [1, 0], [0, 1]] \<lparr>policy = 0, approx_kl = None, applied = []\<rparr>
      = Inr \<lparr>policy = 4, approx_kl = Some 1, applied = [0, 1, 1, 0]\<rparr>"
proof -
  have ne: "list_all (\<lambda>epoch. epoch \<noteq> []) [[0, 1], [1, 0], [0, 1 :: nat]]" by simp
  from run_epochs_early_stop [OF ne, of "\<lambda>p mb. if mb = (0::nat) then 1 else 0"
      "\<lambda>(p::nat) mb. p + 1" "1 / 100" "\<lparr>policy = 0, approx_kl = None, applied = []\<rparr>"]
  have "\<exists>n. run_epochs (\<lambda>p mb. if mb = (0::nat) then 1 else 0) (\<lambda>(p::nat) mb. p + 1)
          (Some (1 / 100)) [[0, 1], [1, 0], [0, 1]] \<lparr>policy = 0, approx_kl = None, applied = []\<rparr>
        = Inr (after_epochs (\<lambda>p mb. if mb = (0::nat) then 1 else 0) (\<lambda>(p::nat) mb. p + 1)
            (take n [[0, 1], [1, 0], [0, 1]]) \<lparr>policy = 0, approx_kl = None, applied = []\<rparr>)"
    by blast
  with ne show ?thesis by (simp add: Let_def)
qed

text \<open>
  C4 as stated asks that no gradient step follows a minibatch whose approximate KL is
  above the threshold. With threshold 0.01 and two epochs of two minibatches, where the
  first minibatch of an epoch has approximate KL 1 and the second 0, all four gradient
  steps are applied.
\<close>

theorem run_epochs_minibatch_stop_counterexample:
  "(1 / 100 :: real) < (if (0::nat) = 0 then 1 else 0)
   \<and> run_epochs (\<lambda>p mb. if mb = (0::nat) then 1 else 0) (\<lambda>(p::nat) mb. p + 1) (Some (1 / 100))
        [[0, 1], [0, 1]] \<lparr>policy = 0, approx_kl = None, applied = []\<rparr>
      = Inr \<lparr>policy = 4, approx_kl = Some 0, applied = [0, 1, 0, 1]\<rparr>"
  by (simp add: Let_def)

subsection \<open>The slice of a finished episode\<close>

lemma length_buffer_after: "length (buffer_after ns a G buf) = length buf"
  by (induction G) simp_all

lemma mod_neq_in_window:
  assumes "j < G" "G < j + ns"
  shows "G mod ns \<noteq> j mod (ns::nat)"
proof
  assume "G mod ns = j mod ns"
  with assms(1) have "ns dvd G - j" by (simp add: mod_eq_dvd_iff_nat)
  moreover from assms have "0 < G - j" "G - j < ns" by simp_all
  ultimately show False by (simp add: nat_dvd_not_less)
qed

lemma buffer_after_nth:
  "length buf = ns \<Longrightarrow> j < G \<Longrightarrow> G \<le> j + ns \<Longrightarrow>
   buffer_after ns a G buf ! (j mod ns) = a j"
proof (induction G)
  case 0
  then show ?case by simp
next
  case (Suc G)
  from Suc.prems have ns: "0 < ns" by simp
  show ?case
  proof (cases "j = G")
    case True
    with Suc.prems(1) ns show ?thesis by (simp add: length_buffer_after)
  next
    case False
    with Suc.prems have jG: "j < G" "G < j + ns" by simp_all
    from mod_neq_in_window [OF this] Suc.IH [OF Suc.prems(1)] jG show ?thesis by simp
  qed
qed

lemma mod_minus_small:
  assumes "d \<le> g mod ns"
  shows "(g - d) mod ns = g mod ns - (d::nat)"
proof (cases "ns = 0")
  case True
  then show ?thesis by simp
next
  case False
  have "g - d = (g mod ns - d) + (g div ns) * ns"
    using assms by (metis Nat.add_diff_assoc2 add.commute div_mult_mod_eq)
  then have "(g - d) mod ns = (g mod ns - d) mod ns" by (metis mod_mult_self1)
  also have "\<dots> = g mod ns - d"
    using False by (simp add: less_imp_diff_less)
  finally show ?thesis .
qed

lemma mod_minus_wrap:
  assumes "g mod ns < d" "d \<le> ns" "d \<le> (g::nat)"
  shows "(g - d) mod ns = ns + g mod ns - d"
proof -
  from assms have ns: "0 < ns" by simp
  have q: "0 < g div ns"
  proof (rule ccontr)
    assume "\<not> 0 < g div ns"
    then have "g < ns" using ns by (simp add: div_eq_0_iff)
    then have "g mod ns = g" by simp
    with assms show False by simp
  qed
  have "g = g mod ns + (g div ns - 1) * ns + ns"
    using q by (metis add.assoc add.commute div_mult_mod_eq mult_eq_if not_less_zero mult.commute)
  then have "g - d = (ns + g mod ns - d) + (g div ns - 1) * ns"
    using assms by linarith
  then have "(g - d) mod ns = (ns + g mod ns - d) mod ns" by (metis mod_mult_self1)
  also have "\<dots> = ns + g mod ns - d"
    using assms by simp
  finally show ?thesis .
qed

lemma drop_take_nth: "hi \<le> length xs \<Longrightarrow> drop lo (take hi xs) = map (nth xs) [lo..<hi]"
proof (rule nth_equalityI)
  assume hi: "hi \<le> length xs"
  then show "length (drop lo (take hi xs)) = length (map (nth xs) [lo..<hi])" by simp
  fix i assume "i < length (drop lo (take hi xs))"
  with hi have i: "lo + i < hi" by simp
  then show "drop lo (take hi xs) ! i = map (nth xs) [lo..<hi] ! i"
    using hi by simp
qed

lemma episode_slice_nowrap:
  assumes "length B = ns" "L \<le> s + 1" "s < ns"
  shows "episode_slice B (int ns) (int s) (int L) env =
           map (\<lambda>i. B ! i ! env) [s + 1 - L..<s + 1]"
proof -
  have start: "\<not> int s + 1 - int L < 0" using assms by simp
  have lo: "nat (slice_bound (int s + 1 - int L) (int (length B))) = s + 1 - L"
    using assms by (auto simp: slice_bound_def min_def)
  have hi: "nat (slice_bound (int s + 1) (int (length B))) = s + 1"
    using assms by (auto simp: slice_bound_def min_def)
  have "py_slice B (int s + 1 - int L) (int s + 1) = map (nth B) [s + 1 - L..<s + 1]"
    unfolding py_slice_def Let_def lo hi
    using drop_take_nth [of "s + 1" B "s + 1 - L"] assms by (simp del: upt_Suc)
  then show ?thesis
    using start by (simp add: episode_slice_def Let_def column_def o_def del: upt_Suc)
qed

lemma episode_slice_wrap:
  assumes "length B = ns" "s + 1 < L" "L \<le> ns + s + 1" "s < ns"
  shows "episode_slice B (int ns) (int s) (int L) env =
           map (\<lambda>i. B ! i ! env) ([ns + s + 1 - L..<ns] @ [0..<s + 1])"
proof -
  have start: "int s + 1 - int L < 0" using assms by simp
  have lo: "nat (slice_bound (int ns + (int s + 1 - int L)) (int (length B))) = ns + s + 1 - L"
    using assms by (auto simp: slice_bound_def min_def)
  have hi: "nat (slice_bound (int s + 1) (int (length B))) = s + 1"
    using assms by (auto simp: slice_bound_def min_def)
  have z: "nat (slice_bound 0 (int (length B))) = 0" by (simp add: slice_bound_def)
  have tail: "py_slice_from B (int ns + (int s + 1 - int L)) = map (nth B) [ns + s + 1 - L..<ns]"
    unfolding py_slice_from_def lo
    using drop_take_nth [of ns B "ns + s + 1 - L"] assms by simp
  have head: "py_slice B 0 (int s + 1) = map (nth B) [0..<s + 1]"
    unfolding py_slice_def Let_def z hi
    using drop_take_nth [of "s + 1" B 0] assms by (simp del: upt_Suc)
  show ?thesis
    using start tail head by (simp add: episode_slice_def Let_def column_def o_def del: upt_Suc)
qed

lemma episode_slice_ring:
  assumes B: "length B = ns" and L: "1 \<le> L" "L \<le> ns" "L \<le> G"
  shows "episode_slice B (int ns) (int ((G - 1) mod ns)) (int L) env =
           map (\<lambda>j. B ! (j mod ns) ! env) [G - L..<G]"
proof -
  let ?s = "(G - 1) mod ns"
  from L have ns: "0 < ns" by simp
  then have s: "?s < ns" by simp
  show ?thesis
  proof (cases "L \<le> ?s + 1")
    case True
    have "map (\<lambda>i. B ! i ! env) [?s + 1 - L..<?s + 1] = map (\<lambda>j. B ! (j mod ns) ! env) [G - L..<G]"
    proof (rule nth_equalityI)
      show "length (map (\<lambda>i. B ! i ! env) [?s + 1 - L..<?s + 1]) =
            length (map (\<lambda>j. B ! (j mod ns) ! env) [G - L..<G])"
        using True L by (simp del: upt_Suc)
      fix k assume "k < length (map (\<lambda>i. B ! i ! env) [?s + 1 - L..<?s + 1])"
      with True have k: "k < L" by (simp del: upt_Suc)
      have j: "G - L + k = (G - 1) - (L - 1 - k)" using k L by simp
      have "L - 1 - k \<le> ?s" using True by simp
      then have "((G - 1) - (L - 1 - k)) mod ns = ?s - (L - 1 - k)" by (rule mod_minus_small)
      with j have "(G - L + k) mod ns = ?s - (L - 1 - k)" by (simp only:)
      also have "\<dots> = ?s + 1 - L + k" using k True by simp
      finally show "map (\<lambda>i. B ! i ! env) [?s + 1 - L..<?s + 1] ! k =
          map (\<lambda>j. B ! (j mod ns) ! env) [G - L..<G] ! k"
        using k True L by (simp del: upt_Suc)
    qed
    with episode_slice_nowrap [OF B True s] show ?thesis by simp
  next
    case False
    then have w: "?s + 1 < L" by simp
    from L have w2: "L \<le> ns + ?s + 1" by simp
    let ?xs = "[ns + ?s + 1 - L..<ns] @ [0..<?s + 1]"
    have len: "length ?xs = L" using w L s by (simp del: upt_Suc)
    have "map (\<lambda>i. B ! i ! env) ?xs = map (\<lambda>j. B ! (j mod ns) ! env) [G - L..<G]"
    proof (rule nth_equalityI)
      show "length (map (\<lambda>i. B ! i ! env) ?xs) =
            length (map (\<lambda>j. B ! (j mod ns) ! env) [G - L..<G])"
        using len L by (simp del: upt_Suc)
      fix k assume "k < length (map (\<lambda>i. B ! i ! env) ?xs)"
      with len have k: "k < L" by (simp del: upt_Suc)
      have j: "G - L + k = (G - 1) - (L - 1 - k)" using k L by simp
      have "?xs ! k = (G - L + k) mod ns"
      proof (cases "k < L - ?s - 1")
        case True
        then have "?xs ! k = ns + ?s + 1 - L + k" using w L s by (simp add: nth_append del: upt_Suc)
        moreover have "?s < L - 1 - k" "L - 1 - k \<le> ns" "L - 1 - k \<le> G - 1"
          using True L by simp_all
        then have "((G - 1) - (L - 1 - k)) mod ns = ns + ?s - (L - 1 - k)"
          by (rule mod_minus_wrap)
        ultimately have "?xs ! k = ns + ?s + 1 - L + k"
          "(G - L + k) mod ns = ns + ?s - (L - 1 - k)" using j by (simp_all only:)
        moreover have "ns + ?s - (L - 1 - k) = ns + ?s + 1 - L + k" using k L w s by simp
        ultimately show ?thesis by (simp only:)
      next
        case False
        then have "?xs ! k = k - (L - ?s - 1)" using w L s k by (simp add: nth_append del: upt_Suc)
        moreover have "L - 1 - k \<le> ?s" using False by simp
        then have "((G - 1) - (L - 1 - k)) mod ns = ?s - (L - 1 - k)" by (rule mod_minus_small)
        ultimately have "?xs ! k = k - (L - ?s - 1)"
          "(G - L + k) mod ns = ?s - (L - 1 - k)" using j by (simp_all only:)
        moreover have "?s - (L - 1 - k) = k - (L - ?s - 1)" using k L w s False by simp
        ultimately show ?thesis by (simp only:)
      qed
      moreover have "k < length ?xs" using k len by (simp only:)
      then have "map (\<lambda>i. B ! i ! env) ?xs ! k = B ! (?xs ! k) ! env" by (rule nth_map)
      moreover have "map (\<lambda>j. B ! (j mod ns) ! env) [G - L..<G] ! k = B ! ((G - L + k) mod ns) ! env"
        using k L by (simp del: upt_Suc)
      ultimately show "map (\<lambda>i. B ! i ! env) ?xs ! k = map (\<lambda>j. B ! (j mod ns) ! env) [G - L..<G] ! k"
        by (simp only:)
    qed
    with episode_slice_wrap [OF B w w2 s] show ?thesis by simp
  qed
qed

lemma episode_slice_chronological:
  assumes "length buf = ns" "1 \<le> L" "L \<le> ns" "L \<le> G"
  shows "episode_slice (buffer_after ns a G buf) (int ns) (int ((G - 1) mod ns)) (int L) env =
           map (\<lambda>j. a j ! env) [G - L..<G]"
proof -
  have "map (\<lambda>j. buffer_after ns a G buf ! (j mod ns) ! env) [G - L..<G] =
        map (\<lambda>j. a j ! env) [G - L..<G]"
  proof (rule map_cong [OF refl])
    fix j assume "j \<in> set [G - L..<G]"
    then have "j < G" "G \<le> j + ns" using assms by auto
    with buffer_after_nth [OF assms(1)] show "buffer_after ns a G buf ! (j mod ns) ! env = a j ! env"
      by simp
  qed
  with episode_slice_ring [of "buffer_after ns a G buf" ns L G env] assms show ?thesis
    by (simp add: length_buffer_after)
qed

lemma action_names_of_map:
  "\<forall>i\<in>set xs. i < length names \<Longrightarrow> action_names_of names xs = Inr (map (nth names) xs)"
  by (induction xs) simp_all

lemma buf_act10: "buffer_after 4 (\<lambda>g. [g mod 3]) 10 [[0], [0], [0], [0]] = [[2], [0], [0], [1::nat]]"
  by code_simp

lemma buf_rew10: "buffer_after 4 (\<lambda>g. [real g]) 10 [[0], [0], [0], [0]] = [[8], [9], [6], [7::real]]"
  by code_simp

text \<open>
  C2 (as amended). For every finished episode of length \<open>L\<close> with \<open>1 \<le> L \<le> num_steps\<close>,
  ending at the step numbered \<open>G - 1\<close> of the run (buffer index \<open>(G - 1) mod num_steps\<close>),
  the reconstruction returns exactly \<open>L\<close> (action name, reward) entries of that
  environment, those of the steps \<open>G - L, ..., G - 1\<close> in this order, also when the start
  index \<open>(s + 1) - L\<close> is negative and the slice is the tail of the buffer followed by its
  head. (The actions of the episode are indices into the list of action names.)
\<close>

theorem ep_a_r_chronological:
  assumes "length abuf = ns" and "length rbuf = ns"
    and "1 \<le> L" and "L \<le> ns" and "L \<le> G"
    and "\<forall>j\<in>set [G - L..<G]. act j ! env < length names"
  shows "\<exists>ep. ep_a_r names (buffer_after ns act G abuf) (buffer_after ns rew G rbuf)
                (int ns) (int ((G - 1) mod ns)) (int L) env = Inr ep \<and>
              length ep = L \<and>
              ep = map (\<lambda>j. (names ! (act j ! env), rew j ! env)) [G - L..<G]"
proof -
  have a: "episode_slice (buffer_after ns act G abuf) (int ns) (int ((G - 1) mod ns)) (int L) env =
             map (\<lambda>j. act j ! env) [G - L..<G]"
    using assms(1,3,4,5) by (rule episode_slice_chronological)
  have r: "episode_slice (buffer_after ns rew G rbuf) (int ns) (int ((G - 1) mod ns)) (int L) env =
             map (\<lambda>j. rew j ! env) [G - L..<G]"
    using assms(2,3,4,5) by (rule episode_slice_chronological)
  have "\<forall>i\<in>set (map (\<lambda>j. act j ! env) [G - L..<G]). i < length names"
    using assms(6) by auto
  from action_names_of_map [OF this]
  have n: "action_names_of names (map (\<lambda>j. act j ! env) [G - L..<G]) =
             Inr (map (\<lambda>j. names ! (act j ! env)) [G - L..<G])"
    by (simp add: o_def)
  have z: "zip (map (\<lambda>j. names ! (act j ! env)) [G - L..<G]) (map (\<lambda>j. rew j ! env) [G - L..<G]) =
           map (\<lambda>j. (names ! (act j ! env), rew j ! env)) [G - L..<G]"
    by (simp add: zip_map_map zip_same_conv_map)
  have "length (map (\<lambda>j. (names ! (act j ! env), rew j ! env)) [G - L..<G]) = L"
    using assms(5) by simp
  with a r n z show ?thesis by (simp add: ep_a_r_def)
qed

theorem ep_a_r_chronological_witness:
  "length [[0], [0], [0], [0 :: nat]] = 4 \<and> length [[0], [0], [0], [0 :: real]] = 4
   \<and> (1::nat) \<le> 3 \<and> (3::nat) \<le> 4 \<and> (3::nat) \<le> 6
   \<and> ep_a_r [''r0'', ''r1'', ''end'']
        (buffer_after 4 (\<lambda>g. [g mod 3]) 6 [[0], [0], [0], [0]])
        (buffer_after 4 (\<lambda>g. [real g]) 6 [[0], [0], [0], [0]])
        4 1 3 0 = Inr [(''r0'', 3), (''r1'', 4), (''end'', 5)]"
proof -
  have h: "\<forall>j\<in>set [6 - 3..<6]. [j mod 3] ! 0 < length [''r0'', ''r1'', ''end'']"
    by simp
  have m: "int ((6 - 1) mod 4) = 1" "int 4 = 4" "int 3 = 3" by simp_all
  have u: "[6 - 3..<6] = [3, 4, 5 :: nat]" by code_simp
  have e: "map (\<lambda>j. ([''r0'', ''r1'', ''end''] ! ([j mod 3] ! 0), [real j] ! 0)) [3, 4, 5 :: nat]
           = [(''r0'', 3), (''r1'', 4), (''end'', 5)]"
    by simp
  from ep_a_r_chronological [of "[[0], [0], [0], [0 :: nat]]" 4 "[[0], [0], [0], [0 :: real]]" 3 6
      "\<lambda>g. [g mod 3]" 0 "[''r0'', ''r1'', ''end'']" "\<lambda>g. [real g]", OF _ _ _ _ _ h]
  have "ep_a_r [''r0'', ''r1'', ''end'']
        (buffer_after 4 (\<lambda>g. [g mod 3]) 6 [[0], [0], [0], [0]])
        (buffer_after 4 (\<lambda>g. [real g]) 6 [[0], [0], [0], [0]])
        (int 4) (int ((6 - 1) mod 4)) (int 3) 0 =
        Inr (map (\<lambda>j. ([''r0'', ''r1'', ''end''] ! ([j mod 3] ! 0), [real j] ! 0)) [6 - 3..<6])"
    by simp
  then show ?thesis unfolding m u e by simp
qed

text \<open>
  C2 as stated covers every episode length. With a buffer of 4 slots, an episode of 7
  steps ending at buffer index 1 (the steps 3 to 9 of the run) is reconstructed as 3
  entries, those of the steps 7, 8 and 9.
\<close>

theorem ep_a_r_long_episode_counterexample:
  "ep_a_r [''r0'', ''r1'', ''end'']
        (buffer_after 4 (\<lambda>g. [g mod 3]) 10 [[0], [0], [0], [0]])
        (buffer_after 4 (\<lambda>g. [real g]) 10 [[0], [0], [0], [0]])
        4 1 7 0 = Inr [(''r1'', 7), (''end'', 8), (''r0'', 9)]
   \<and> length [(''r1'', 7 :: real), (''end'', 8), (''r0'', 9)] \<noteq> 7"
  unfolding buf_act10 buf_rew10
  by (simp add: ep_a_r_def episode_slice_def py_slice_def py_slice_from_def slice_bound_def
      column_def)

subsection \<open>Advantage estimation\<close>

lemma length_vec_ops:
  "length (vadd xs ys) = min (length xs) (length ys)"
  "length (vsub xs ys) = min (length xs) (length ys)"
  "length (vmul xs ys) = min (length xs) (length ys)"
  "length (smul c xs) = length xs"
  "length (one_minus xs) = length xs"
  by (simp_all add: vadd_def vsub_def vmul_def smul_def one_minus_def)

lemma nth_vec_ops:
  "e < length xs \<Longrightarrow> e < length ys \<Longrightarrow> vadd xs ys ! e = xs ! e + ys ! e"
  "e < length xs \<Longrightarrow> e < length ys \<Longrightarrow> vsub xs ys ! e = xs ! e - ys ! e"
  "e < length xs \<Longrightarrow> e < length ys \<Longrightarrow> vmul xs ys ! e = xs ! e * ys ! e"
  "e < length xs \<Longrightarrow> smul c xs ! e = c * xs ! e"
  "e < length xs \<Longrightarrow> one_minus xs ! e = 1 - xs ! e"
  by (simp_all add: vadd_def vsub_def vmul_def smul_def one_minus_def)

lemma shaped_rows:
  assumes "shaped T E R" "t < T"
  shows "length (rewards R ! t) = E" "length (vals R ! t) = E" "length (dones R ! t) = E"
  using assms by (simp_all add: shaped_def list_all_length)

lemma shaped_boot:
  assumes "shaped T E R"
  shows "length (next_value R) = E" "length (next_done R) = E"
  using assms by (simp_all add: shaped_def)

lemma length_nextnonterminal:
  assumes "shaped T E R" "t < T"
  shows "length (nextnonterminal R T t) = E"
proof (cases "t = T - 1")
  case True
  with assms show ?thesis by (simp add: nextnonterminal_def length_vec_ops shaped_boot)
next
  case False
  with assms have "t + 1 < T" by simp
  with assms(1) False show ?thesis
    by (simp add: nextnonterminal_def length_vec_ops shaped_rows)
qed

lemma nth_nextnonterminal:
  assumes "shaped T E R" "t < T" "e < E"
  shows "nextnonterminal R T t ! e = nonterminal_at R T t e"
proof (cases "t = T - 1")
  case True
  with assms have "\<not> t + 1 < T" by simp
  with True assms show ?thesis
    by (simp add: nextnonterminal_def nonterminal_at_def nth_vec_ops shaped_boot)
next
  case False
  with assms have lt: "t + 1 < T" by simp
  from shaped_rows(3) [OF assms(1) lt] assms(3) have "e < length (dones R ! (t + 1))" by simp
  with False lt show ?thesis
    by (simp add: nextnonterminal_def nonterminal_at_def nth_vec_ops)
qed

lemma length_gae_step:
  assumes "shaped T E R" "t < T" "length lastgaelam = E"
  shows "length (gae_step g lam R T t lastgaelam) = E"
proof -
  have nv: "length (if t = T - 1 then next_value R else vals R ! (t + 1)) = E"
  proof (cases "t = T - 1")
    case True
    with assms show ?thesis by (simp add: shaped_boot)
  next
    case False
    with assms have "t + 1 < T" by simp
    with assms(1) False show ?thesis by (simp add: shaped_rows)
  qed
  show ?thesis
    unfolding gae_step_def Let_def
    using nv assms length_nextnonterminal [OF assms(1,2)] shaped_rows [OF assms(1,2)]
    by (simp add: length_vec_ops)
qed

lemma nth_gae_step:
  assumes "shaped T E R" "t < T" "e < E" "length lastgaelam = E"
  shows "gae_step g lam R T t lastgaelam ! e =
           delta_at g R T t e + g * lam * nonterminal_at R T t e * lastgaelam ! e"
proof -
  let ?nv = "if t = T - 1 then next_value R else vals R ! (t + 1)"
  have nvl: "length ?nv = E"
  proof (cases "t = T - 1")
    case True
    with assms show ?thesis by (simp add: shaped_boot)
  next
    case False
    with assms have "t + 1 < T" by simp
    with assms(1) False show ?thesis by (simp add: shaped_rows)
  qed
  have nve: "?nv ! e = next_v_at R T t e"
    using assms(2) by (auto simp: next_v_at_def)
  note len = nvl length_nextnonterminal [OF assms(1,2)] shaped_rows [OF assms(1,2)] assms(4)
  have d: "vsub (vadd (rewards R ! t) (vmul (smul g ?nv) (nextnonterminal R T t))) (vals R ! t) ! e
           = delta_at g R T t e"
    using assms(3) len nve nth_nextnonterminal [OF assms(1,2,3)]
    by (simp add: nth_vec_ops length_vec_ops delta_at_def)
  have l: "vmul (smul (g * lam) (nextnonterminal R T t)) lastgaelam ! e
           = g * lam * nonterminal_at R T t e * lastgaelam ! e"
    using assms(3) len nth_nextnonterminal [OF assms(1,2,3)]
    by (simp add: nth_vec_ops length_vec_ops)
  show ?thesis
    unfolding gae_step_def Let_def
    using assms(3) len d l by (simp add: nth_vec_ops length_vec_ops)
qed

lemma length_gae_loop: "length (gae_loop g lam R T k adv lg) = length adv"
  by (induction k arbitrary: adv lg) (simp_all add: Let_def)

lemma gae_loop_above: "k \<le> t \<Longrightarrow> gae_loop g lam R T k adv lg ! t = adv ! t"
  by (induction k arbitrary: adv lg) (simp_all add: Let_def)

lemma gae_loop_row:
  "t < k \<Longrightarrow> k \<le> length adv \<Longrightarrow>
   gae_loop g lam R T k adv lg ! t =
     gae_step g lam R T t (if Suc t = k then lg else gae_loop g lam R T k adv lg ! Suc t)"
proof (induction k arbitrary: adv lg)
  case 0
  then show ?case by simp
next
  case (Suc k)
  let ?l = "gae_step g lam R T k lg"
  show ?case
  proof (cases "t = k")
    case True
    with Suc.prems show ?thesis by (simp add: Let_def gae_loop_above)
  next
    case False
    with Suc.prems have tk: "t < k" and k: "k \<le> length (adv[k := ?l])" by simp_all
    have "Suc t = k \<Longrightarrow> gae_loop g lam R T k (adv[k := ?l]) ?l ! Suc t = ?l"
      using Suc.prems by (simp add: gae_loop_above)
    with Suc.IH [OF tk k, of ?l] False tk show ?thesis by (auto simp: Let_def)
  qed
qed

lemma gae_loop_row_len:
  assumes sh: "shaped T E R"
  shows "k \<le> T \<Longrightarrow> k \<le> length adv \<Longrightarrow> length lg = E \<Longrightarrow> t < k \<Longrightarrow>
     length (gae_loop g lam R T k adv lg ! t) = E"
proof (induction k arbitrary: adv lg)
  case 0
  then show ?case by simp
next
  case (Suc k)
  let ?l = "gae_step g lam R T k lg"
  from Suc.prems have l: "length ?l = E" by (intro length_gae_step [OF sh]) simp_all
  show ?case
  proof (cases "t = k")
    case True
    with Suc.prems l show ?thesis by (simp add: Let_def gae_loop_above)
  next
    case False
    with Suc.prems have "t < k" by simp
    with Suc.IH [of "adv[k := ?l]" ?l] Suc.prems l show ?thesis by (simp add: Let_def)
  qed
qed

lemma gae_adv_elem:
  fixes g lam :: real
  assumes sh: "shaped T E R" and t: "t < T" and e: "e < E"
  defines "A \<equiv> gae_loop g lam R T T (replicate T (replicate E 0)) (replicate E 0)"
  shows "A ! t ! e =
           delta_at g R T t e +
           g * lam * nonterminal_at R T t e * (if t + 1 < T then A ! (t + 1) ! e else 0)"
proof -
  let ?last = "if Suc t = T then replicate E 0 else A ! Suc t"
  have row: "A ! t = gae_step g lam R T t ?last"
    unfolding A_def using t by (intro gae_loop_row) simp_all
  have len: "length ?last = E"
  proof (cases "Suc t = T")
    case True
    then show ?thesis by simp
  next
    case False
    with t have "Suc t < T" by simp
    then have "length (A ! Suc t) = E"
      unfolding A_def by (intro gae_loop_row_len [OF sh]) simp_all
    with False show ?thesis by simp
  qed
  have "?last ! e = (if t + 1 < T then A ! (t + 1) ! e else 0)"
    using t e by auto
  with nth_gae_step [OF sh t e len, of g lam] row show ?thesis by simp
qed









lemma gae_rows:
  assumes "shaped T E R" "t < T"
  shows "length (gae_loop g lam R T T (replicate T (replicate E 0)) (replicate E 0) ! t) = E"
  using assms(2) by (intro gae_loop_row_len [OF assms(1)]) simp_all


lemma gae_returns_elem:
  assumes "shaped T E R" "t < T" "e < E"
  shows "snd (compute_advantages True g lam T E R) ! t ! e =
         fst (compute_advantages True g lam T E R) ! t ! e + vals R ! t ! e"
proof -
  let ?A = "gae_loop g lam R T T (replicate T (replicate E 0)) (replicate E 0)"
  have lA: "length ?A = T" by (simp add: length_gae_loop)
  have lV: "length (vals R) = T" using assms(1) by (simp add: shaped_def)
  have "map2 vadd ?A (vals R) ! t = vadd (?A ! t) (vals R ! t)"
    using lA lV assms(2) by simp
  moreover have "vadd (?A ! t) (vals R ! t) ! e = ?A ! t ! e + vals R ! t ! e"
    using gae_rows [OF assms(1,2), of g lam] shaped_rows(2) [OF assms(1,2)] assms(3)
    by (simp add: nth_vec_ops)
  ultimately show ?thesis by (simp add: compute_advantages_def Let_def)
qed



text \<open>
  C5. With \<open>use_gae\<close> enabled, for every step \<open>t\<close> from \<open>T - 1\<close> down to 0 and every
  environment \<open>e\<close> of a rollout of \<open>T\<close> steps and \<open>E\<close> environments, the computed advantage
  satisfies \<open>advantage_t = delta_t + gamma * lambda * nonterminal_t * advantage_{t+1}\<close>
  with \<open>advantage_T = 0\<close>, where
  \<open>delta_t = reward_t + gamma * next_v_t * nonterminal_t - value_t\<close>, and the returned
  \<open>return_t\<close> equals \<open>advantage_t + value_t\<close>.
\<close>

theorem gae_recursion:
  assumes "shaped T E R" and "t < T" and "e < E"
  shows "fst (compute_advantages True g lam T E R) ! t ! e =
           delta_at g R T t e +
           g * lam * nonterminal_at R T t e *
             (if t + 1 < T then fst (compute_advantages True g lam T E R) ! (t + 1) ! e else 0)
         \<and> snd (compute_advantages True g lam T E R) ! t ! e =
           fst (compute_advantages True g lam T E R) ! t ! e + vals R ! t ! e"
proof
  show "fst (compute_advantages True g lam T E R) ! t ! e =
           delta_at g R T t e +
           g * lam * nonterminal_at R T t e *
             (if t + 1 < T then fst (compute_advantages True g lam T E R) ! (t + 1) ! e else 0)"
    using gae_adv_elem [OF assms, of g lam] by (simp add: compute_advantages_def Let_def)
  show "snd (compute_advantages True g lam T E R) ! t ! e =
           fst (compute_advantages True g lam T E R) ! t ! e + vals R ! t ! e"
    using assms by (rule gae_returns_elem)
qed

theorem gae_recursion_witness:
  "shaped 4 1 \<lparr>rewards = [[1], [1], [1], [1]], vals = [[0], [0], [0], [0]],
         dones = [[0], [0], [0], [0]], next_value = [0], next_done = [0]\<rparr>
   \<and> (2::nat) < 4 \<and> (0::nat) < 1
   \<and> fst (compute_advantages True (99 / 100) (95 / 100) 4 1
         \<lparr>rewards = [[1], [1], [1], [1]], vals = [[0], [0], [0], [0]],
          dones = [[0], [0], [0], [0]], next_value = [0], next_done = [0]\<rparr>) ! 2 ! 0
       = 1 + 99 / 100 * (95 / 100) * 1 * 1
   \<and> snd (compute_advantages True (99 / 100) (95 / 100) 4 1
         \<lparr>rewards = [[1], [1], [1], [1]], vals = [[0], [0], [0], [0]],
          dones = [[0], [0], [0], [0]], next_value = [0], next_done = [0]\<rparr>) ! 2 ! 0
       = 3881 / 2000"
proof -
  let ?R = "\<lparr>rewards = [[1], [1], [1], [1]], vals = [[0], [0], [0], [0]],
         dones = [[0], [0], [0], [0]], next_value = [0], next_done = [0]\<rparr>"
  have sh: "shaped 4 1 ?R" by (simp add: shaped_def)
  have ev: "compute_advantages True (99 / 100) (95 / 100) 4 1 ?R =
    ([[29255602841 / 8000000000], [11300161 / 4000000], [3881 / 2000], [1]],
     [[29255602841 / 8000000000], [11300161 / 4000000], [3881 / 2000], [1]])"
    by code_simp
  have d: "delta_at (99 / 100) ?R 4 2 0 = 1" "nonterminal_at ?R 4 2 0 = 1"
    by (simp_all add: delta_at_def next_v_at_def nonterminal_at_def)
  from gae_recursion [OF sh, of 2 0 "99 / 100" "95 / 100"] sh
  show ?thesis unfolding ev d by simp
qed



subsection \<open>Advantage normalization in the policy loss\<close>

lemma mean_sum_nth: "mean xs = (\<Sum>i<length xs. xs ! i) / real (length xs)"
  by (simp add: mean_def sum_list_sum_nth atLeast0LessThan)

lemma nth_normalize_adv:
  "i < length mb \<Longrightarrow> normalize_adv True mb ! i = standardized mb i"
  by (simp add: normalize_adv_def standardized_def)

lemma length_normalize_adv: "length (normalize_adv b mb) = length mb"
  by (simp add: normalize_adv_def)

text \<open>
  C10. When advantage normalization is enabled (the default), the policy loss of a
  minibatch (of at least two entries) is the mean of the clipped surrogate terms formed
  from the standardized advantages, not from the raw ones: each advantage has the
  minibatch mean subtracted and is divided by the minibatch standard deviation plus
  \<open>1e-8\<close> before the terms \<open>- advantage * ratio\<close> and
  \<open>- advantage * clamp(ratio, 1 - clip_coef, 1 + clip_coef)\<close> are formed.
\<close>

theorem pg_loss_standardized:
  assumes "norm_adv a" and "2 \<le> length mb" and "length ratio = length mb"
  shows "pg_loss (norm_adv a) (clip_coef a) mb ratio =
     (\<Sum>i<length mb.
        max (- standardized mb i * ratio ! i)
            (- standardized mb i * clamp (ratio ! i) (1 - clip_coef a) (1 + clip_coef a)))
     / real (length mb)
   \<and> norm_adv default_cli"
proof
  let ?z = "normalize_adv True mb"
  let ?l1 = "map2 (\<lambda>v r. - v * r) ?z ratio"
  let ?l2 = "map2 (\<lambda>v r. - v * clamp r (1 - clip_coef a) (1 + clip_coef a)) ?z ratio"
  have len: "length (map2 max ?l1 ?l2) = length mb"
    using assms(3) by (simp add: length_normalize_adv)
  have "(\<Sum>i<length mb. map2 max ?l1 ?l2 ! i) =
        (\<Sum>i<length mb.
          max (- standardized mb i * ratio ! i)
              (- standardized mb i * clamp (ratio ! i) (1 - clip_coef a) (1 + clip_coef a)))"
  proof (rule sum.cong [OF refl])
    fix i assume "i \<in> {..<length mb}"
    then have i: "i < length mb" by simp
    with assms(3) show "map2 max ?l1 ?l2 ! i =
          max (- standardized mb i * ratio ! i)
              (- standardized mb i * clamp (ratio ! i) (1 - clip_coef a) (1 + clip_coef a))"
      by (simp add: length_normalize_adv nth_normalize_adv)
  qed
  with len have "mean (map2 max ?l1 ?l2) =
     (\<Sum>i<length mb.
        max (- standardized mb i * ratio ! i)
            (- standardized mb i * clamp (ratio ! i) (1 - clip_coef a) (1 + clip_coef a)))
     / real (length mb)"
    by (simp only: mean_sum_nth)
  with assms(1) show "pg_loss (norm_adv a) (clip_coef a) mb ratio =
     (\<Sum>i<length mb.
        max (- standardized mb i * ratio ! i)
            (- standardized mb i * clamp (ratio ! i) (1 - clip_coef a) (1 + clip_coef a)))
     / real (length mb)"
    by (simp add: pg_loss_def Let_def)
  show "norm_adv default_cli" by (simp add: default_cli_def)
qed

theorem pg_loss_standardized_witness:
  "norm_adv default_cli \<and> (2::nat) \<le> length [0, 4, 8 :: real]
   \<and> length [1, 1, 1 :: real] = length [0, 4, 8 :: real]
   \<and> pg_loss (norm_adv default_cli) (clip_coef default_cli) [0, 4, 8] [1, 1, 1] = 0
   \<and> pg_loss False (clip_coef default_cli) [0, 4, 8] [1, 1, 1] = - 4"
proof -
  have n: "norm_adv default_cli" by (simp add: default_cli_def)
  have c: "clip_coef default_cli = 2 / 10" by (simp add: default_cli_def)
  have m: "mean [0, 4, 8] = 4" by (simp add: mean_def)
  have s: "(\<Sum>i<length [0, 4, 8 :: real].
        max (- standardized [0, 4, 8] i * [1, 1, 1] ! i)
            (- standardized [0, 4, 8] i * clamp ([1, 1, 1] ! i) (1 - 2 / 10) (1 + 2 / 10))) = 0"
    by (simp add: standardized_def m clamp_def lessThan_Suc numeral_3_eq_3)
  have raw: "pg_loss False (clip_coef default_cli) [0, 4, 8] [1, 1, 1] = - 4"
    by (simp add: pg_loss_def normalize_adv_def mean_def clamp_def default_cli_def)
  from pg_loss_standardized [OF n, of "[0, 4, 8]" "[1, 1, 1]"]
  have "pg_loss (norm_adv default_cli) (clip_coef default_cli) [0, 4, 8] [1, 1, 1] = 0"
    unfolding c s by auto
  with n raw show ?thesis by simp
qed

end
